theory Spec2Isabelle
  imports Main
begin

section \<open>Strings\<close>

text \<open>
  A JavaScript string is a sequence of UTF-16 code units. A code unit is modelled by its
  number (a \<open>nat\<close>; real code units are below 65536, and nothing below depends on that
  bound). \<open>js\<close> turns an ASCII literal into such a string, so \<open>js ''A''\<close> is \<open>[65]\<close>.
\<close>

type_synonym jschar = nat
type_synonym jsstring = "jschar list"

definition js :: "string \<Rightarrow> jsstring" where
  "js s = map of_char s"

text \<open>
  \<open>String.prototype.trim\<close> removes white space and line terminators from both ends:
  TAB, LF, VT, FF, CR, SPACE, NBSP, U+1680, U+2000 to U+200A, LS, PS, U+202F, U+205F,
  U+3000 and the byte order mark U+FEFF.
\<close>

definition isWhiteSpace :: "jschar \<Rightarrow> bool" where
  "isWhiteSpace c \<longleftrightarrow>
     c = 0x09 \<or> c = 0x0A \<or> c = 0x0B \<or> c = 0x0C \<or> c = 0x0D \<or> c = 0x20 \<or> c = 0xA0 \<or>
     c = 0x1680 \<or> (0x2000 \<le> c \<and> c \<le> 0x200A) \<or> c = 0x2028 \<or> c = 0x2029 \<or>
     c = 0x202F \<or> c = 0x205F \<or> c = 0x3000 \<or> c = 0xFEFF"

definition trim :: "jsstring \<Rightarrow> jsstring" where
  "trim s = rev (dropWhile isWhiteSpace (rev (dropWhile isWhiteSpace s)))"

section \<open>The code generator\<close>

text \<open>
  \<^verbatim>\<open>this.base62Alphabet = '0123456789ABCDEFGHIJKLMNOPQRSTUVWXYZabcdefghijklmnopqrstuvwxyz';\<close>
\<close>

definition base62Alphabet :: jsstring where
  "base62Alphabet = js ''0123456789ABCDEFGHIJKLMNOPQRSTUVWXYZabcdefghijklmnopqrstuvwxyz''"

text \<open>
  \<^verbatim>\<open>
  encodeBase62(num) {
      if (num === 0) return this.base62Alphabet[0];
      let encoded = '';
      while (num > 0) {
          encoded = this.base62Alphabet[num % 62] + encoded;
          num = Math.floor(num / 62);
      }
      return encoded;
  }
  \<close>
  \<open>encodeLoop\<close> is the while loop, with the loop variables \<open>num\<close> and \<open>encoded\<close> as
  arguments. The index \<open>num % 62\<close> is below the alphabet's length 62, so the read is in
  range. The argument is a non-negative integer: the only caller passes the counter
  \<open>nextId\<close>. \<open>encodeLoop\<close> and \<open>encodeBase62\<close> compute with exact integers (\<open>div\<close>, \<open>mod\<close>).
  JavaScript numbers are doubles, and the loop as the doubles run it is
  \<open>encodeBase62Double\<close> below; the two are equal for every \<open>num < 2^53\<close>
  (\<open>encodeBase62Double_exact\<close>), the range a counter that starts at 1 and grows by one
  per stored entry stays in, and the registry is modelled with the exact one.
\<close>

fun encodeLoop :: "nat \<Rightarrow> jsstring \<Rightarrow> jsstring" where
  "encodeLoop num encoded =
     (if num > 0
      then encodeLoop (num div 62) ((base62Alphabet ! (num mod 62)) # encoded)
      else encoded)"

declare encodeLoop.simps [simp del]

definition encodeBase62 :: "nat \<Rightarrow> jsstring" where
  "encodeBase62 num = (if num = 0 then [base62Alphabet ! 0] else encodeLoop num [])"

subsection \<open>The loop in double arithmetic\<close>

text \<open>
  A JavaScript number is an IEEE 754 double. On integer-valued doubles the tests
  \<open>num === 0\<close> and \<open>num > 0\<close> and the remainder \<open>num % 62\<close> are exact; the quotient
  \<open>num / 62\<close> is the exact quotient rounded to the nearest double, ties to the even
  significand, and \<open>Math.floor\<close> of a double is exact. The definitions below compute
  \<open>Math.floor(a / b)\<close> that way for integer-valued doubles \<open>a \<ge> 0\<close> and \<open>b > 0\<close> (the
  source has \<open>b = 62\<close>; such a quotient neither overflows nor is subnormal).

  \<open>log2floor n\<close> is the binary exponent of \<open>n \<ge> 1\<close>, that is \<open>2 ^ log2floor n \<le> n < 2 * 2 ^ log2floor n\<close>;
  for \<open>0 < a < b\<close>, \<open>negExponent a b\<close> is the \<open>k\<close> with \<open>2 ^ -k \<le> a / b < 2 * 2 ^ -k\<close>;
  \<open>roundDivEven n d\<close> is \<open>n / d\<close> rounded to the nearest integer, ties to even.
  A quotient with binary exponent \<open>e\<close> has a 53-bit significand, so it is rounded to a
  multiple of \<open>2 ^ (e - 52)\<close>.
\<close>

fun log2floor :: "nat \<Rightarrow> nat" where
  "log2floor n = (if n < 2 then 0 else Suc (log2floor (n div 2)))"

declare log2floor.simps [simp del]

function negExponent :: "nat \<Rightarrow> nat \<Rightarrow> nat" where
  "negExponent a b = (if a = 0 \<or> b \<le> a then 0 else Suc (negExponent (2 * a) b))"
  by pat_completeness auto
termination
  by (relation "measure (\<lambda>(a, b). b - a)") auto

declare negExponent.simps [simp del]

definition roundDivEven :: "nat \<Rightarrow> nat \<Rightarrow> nat" where
  "roundDivEven n d =
     (let f = n div d; r = n mod d
      in if 2 * r < d then f
         else if d < 2 * r then f + 1
         else if even f then f else f + 1)"

definition floorDivDouble :: "nat \<Rightarrow> nat \<Rightarrow> nat" where
  "floorDivDouble a b =
     (if a = 0 then 0
      else if b \<le> a then
        (let e = log2floor (a div b)
         in if e \<le> 52 then roundDivEven (a * 2 ^ (52 - e)) b div 2 ^ (52 - e)
            else roundDivEven a (b * 2 ^ (e - 52)) * 2 ^ (e - 52))
      else
        (let k = negExponent a b
         in roundDivEven (a * 2 ^ (52 + k)) b div 2 ^ (52 + k)))"

text \<open>
  \<open>encodeBase62Double\<close> is \<open>encodeBase62\<close> as the engine runs it, for every integer-valued
  double \<open>num \<ge> 0\<close>: the same loop, with \<open>Math.floor(num / 62)\<close> in double arithmetic. Its
  termination is proved below (\<open>floorDivDouble_less\<close>). It agrees with the exact loop
  \<open>encodeBase62\<close> for every \<open>num < 2^53\<close> (\<open>encodeBase62Double_exact\<close>), and differs from it
  beyond.
\<close>

function encodeLoopDouble :: "nat \<Rightarrow> jsstring \<Rightarrow> jsstring" where
  "encodeLoopDouble num encoded =
     (if num > 0
      then encodeLoopDouble (floorDivDouble num 62) ((base62Alphabet ! (num mod 62)) # encoded)
      else encoded)"
  by pat_completeness auto

definition encodeBase62Double :: "nat \<Rightarrow> jsstring" where
  "encodeBase62Double num = (if num = 0 then [base62Alphabet ! 0] else encodeLoopDouble num [])"

section \<open>Regular expressions\<close>

text \<open>
  The two patterns of the source are sequences of the atoms below: the anchors \<open>^\<close> and
  \<open>$\<close>, a literal, an optional literal \<open>(?:l)?\<close>, a character class with a bounded
  repetition \<open>[..]{lo,hi}\<close> or with \<open>*\<close>, and the word boundary \<open>\b\<close>. A class is the
  predicate of its members.
\<close>

datatype rx =
    Bol
  | Eol
  | Lit jsstring
  | Opt jsstring
  | Rep nat nat "jschar \<Rightarrow> bool"
  | Star "jschar \<Rightarrow> bool"
  | WordB

text \<open>Word characters, for \<open>\b\<close>: \<open>[A-Za-z0-9_]\<close>.\<close>

definition isWordChar :: "jschar \<Rightarrow> bool" where
  "isWordChar c \<longleftrightarrow>
     (0x30 \<le> c \<and> c \<le> 0x39) \<or> (0x41 \<le> c \<and> c \<le> 0x5A) \<or> (0x61 \<le> c \<and> c \<le> 0x7A) \<or> c = 0x5F"

text \<open>
  With the flag \<open>i\<close> (and without \<open>u\<close>) two code units match when their canonical forms
  are equal; the canonical form is the upper-case code unit, except that a code unit
  from 128 on is never mapped to one below 128. The literals of the source's patterns
  are ASCII, and for a comparison with an ASCII literal this is exactly upper-casing
  \<open>a\<close> to \<open>z\<close> and leaving every other code unit alone.
\<close>

definition canonicalize :: "bool \<Rightarrow> jschar \<Rightarrow> jschar" where
  "canonicalize ic c = (if ic \<and> 0x61 \<le> c \<and> c \<le> 0x7A then c - 0x20 else c)"

definition litMatch :: "bool \<Rightarrow> jsstring \<Rightarrow> jsstring \<Rightarrow> bool" where
  "litMatch ic l s \<longleftrightarrow>
     length l \<le> length s \<and>
     map (canonicalize ic) (take (length l) s) = map (canonicalize ic) l"

definition wordAt :: "jschar option \<Rightarrow> bool" where
  "wordAt c = (case c of None \<Rightarrow> False | Some x \<Rightarrow> isWordChar x)"

definition lastOf :: "jschar option \<Rightarrow> jsstring \<Rightarrow> jschar option" where
  "lastOf prev l = (if l = [] then prev else Some (last l))"

text \<open>
  \<open>rxMatch ic rs prev s\<close>: the atoms \<open>rs\<close> match at the current position, where \<open>s\<close> is the
  rest of the input and \<open>prev\<close> the code unit before the position (\<open>None\<close> at the start of
  the input). The matcher backtracks as the engine does: a repetition first tries one
  more code unit and falls back to the rest of the pattern, so the result is whether
  some way of matching exists. \<open>ic\<close> is the flag \<open>i\<close>; the classes are only used without it.
\<close>

function (sequential) rxMatch :: "bool \<Rightarrow> rx list \<Rightarrow> jschar option \<Rightarrow> jsstring \<Rightarrow> bool" where
  "rxMatch ic [] prev s = True"
| "rxMatch ic (Bol # rs) prev s = (if prev = None then rxMatch ic rs prev s else False)"
| "rxMatch ic (Eol # rs) prev s = (if s = [] then rxMatch ic rs prev s else False)"
| "rxMatch ic (Lit l # rs) prev s =
     (if litMatch ic l s
      then rxMatch ic rs (lastOf prev (take (length l) s)) (drop (length l) s)
      else False)"
| "rxMatch ic (Opt l # rs) prev s =
     (if (if litMatch ic l s
          then rxMatch ic rs (lastOf prev (take (length l) s)) (drop (length l) s)
          else False)
      then True
      else rxMatch ic rs prev s)"
| "rxMatch ic (Rep lo hi cls # rs) prev [] =
     (if lo = 0 then rxMatch ic rs prev [] else False)"
| "rxMatch ic (Rep lo hi cls # rs) prev (c # cs) =
     (if (if 0 < hi \<and> cls c
          then rxMatch ic (Rep (lo - 1) (hi - 1) cls # rs) (Some c) cs
          else False)
      then True
      else if lo = 0 then rxMatch ic rs prev (c # cs) else False)"
| "rxMatch ic (Star cls # rs) prev [] = rxMatch ic rs prev []"
| "rxMatch ic (Star cls # rs) prev (c # cs) =
     (if (if cls c then rxMatch ic (Star cls # rs) (Some c) cs else False)
      then True
      else rxMatch ic rs prev (c # cs))"
| "rxMatch ic (WordB # rs) prev s =
     (if wordAt prev \<noteq> wordAt (case s of [] \<Rightarrow> None | c # _ \<Rightarrow> Some c)
      then rxMatch ic rs prev s
      else False)"
  by pat_completeness auto
termination
  by (relation "measures [\<lambda>(ic, rs, prev, s). length s, \<lambda>(ic, rs, prev, s). length rs]") auto

text \<open>\<open>RegExp.prototype.test\<close> looks for a match starting at any position of the input.\<close>

fun rxSearch :: "bool \<Rightarrow> rx list \<Rightarrow> jschar option \<Rightarrow> jsstring \<Rightarrow> bool" where
  "rxSearch ic rs prev [] = rxMatch ic rs prev []"
| "rxSearch ic rs prev (c # cs) =
     (if rxMatch ic rs prev (c # cs) then True else rxSearch ic rs (Some c) cs)"

definition rxTest :: "bool \<Rightarrow> rx list \<Rightarrow> jsstring \<Rightarrow> bool" where
  "rxTest ic rs s = rxSearch ic rs None s"

section \<open>The validator\<close>

definition isAlnum :: "jschar \<Rightarrow> bool" where
  "isAlnum c \<longleftrightarrow>
     (0x30 \<le> c \<and> c \<le> 0x39) \<or> (0x41 \<le> c \<and> c \<le> 0x5A) \<or> (0x61 \<le> c \<and> c \<le> 0x7A)"

text \<open>
  \<^verbatim>\<open>
  this.urlValidationRegex =
    /^https?:\/\/(?:www\.)?[-a-zA-Z0-9@:%._\+~#=]{1,256}\.[a-zA-Z0-9()]{1,6}\b(?:[-a-zA-Z0-9()@:%_\+.~#?&\/=]*)$/;
  \<close>
  Its three classes, in the order they appear:
\<close>

definition hostClass :: "jschar \<Rightarrow> bool" where
  "hostClass c \<longleftrightarrow> isAlnum c \<or> c \<in> set (js ''-@:%._+~#='')"

definition tldClass :: "jschar \<Rightarrow> bool" where
  "tldClass c \<longleftrightarrow> isAlnum c \<or> c \<in> set (js ''()'')"

definition pathClass :: "jschar \<Rightarrow> bool" where
  "pathClass c \<longleftrightarrow> isAlnum c \<or> c \<in> set (js ''-()@:%_+.~#?&/='')"

definition urlValidationRegex :: "rx list" where
  "urlValidationRegex =
     [Bol, Lit (js ''http''), Opt (js ''s''), Lit (js ''://''), Opt (js ''www.''),
      Rep 1 256 hostClass, Lit (js ''.''), Rep 1 6 tldClass, WordB, Star pathClass, Eol]"

text \<open>The pattern of \<open>normalizeURL\<close>, \<^verbatim>\<open>/^https?:\/\//i\<close>, used with the flag \<open>i\<close>.\<close>

definition protocolRegex :: "rx list" where
  "protocolRegex = [Bol, Lit (js ''http''), Opt (js ''s''), Lit (js ''://'')]"

text \<open>
  The two messages the validator throws, and the alert of a failed lookup:
  \<open>EmptyInput\<close> is \<^verbatim>\<open>'Please enter a URL to shorten'\<close>, \<open>InvalidFormat\<close> is
  \<^verbatim>\<open>'Please enter a valid URL (e.g., https://example.com)'\<close>, \<open>NotFound\<close> is
  \<^verbatim>\<open>'Short URL not found. ...'\<close>.
\<close>

datatype error = EmptyInput | InvalidFormat | NotFound

text \<open>
  \<^verbatim>\<open>
  isValidURL(url) {
      try { new URL(url); return this.urlValidationRegex.test(url); }
      catch { return false; }
  }
  \<close>
  \<open>new URL\<close> is the platform's URL parser, not code of the repository: it is the
  parameter \<open>parses\<close>, true of the strings on which \<open>new URL\<close> does not throw.
\<close>

definition isValidURL :: "(jsstring \<Rightarrow> bool) \<Rightarrow> jsstring \<Rightarrow> bool" where
  "isValidURL parses url = (if parses url then rxTest False urlValidationRegex url else False)"

text \<open>
  \<^verbatim>\<open>
  normalizeURL(url) {
      if (!/^https?:\/\//i.test(url)) { url = 'https://' + url; }
      return url;
  }
  \<close>
\<close>

definition normalizeURL :: "jsstring \<Rightarrow> jsstring" where
  "normalizeURL url = (if \<not> rxTest True protocolRegex url then js ''https://'' @ url else url)"

text \<open>
  \<^verbatim>\<open>
  validateAndNormalizeURL(url) {
      if (!url.trim()) { throw new Error('Please enter a URL to shorten'); }
      const normalizedUrl = this.normalizeURL(url.trim());
      if (!this.isValidURL(normalizedUrl)) {
          throw new Error('Please enter a valid URL (e.g., https://example.com)');
      }
      return normalizedUrl;
  }
  \<close>
  A string is falsy exactly when it is empty.
\<close>

definition validateAndNormalizeURL :: "(jsstring \<Rightarrow> bool) \<Rightarrow> jsstring \<Rightarrow> error + jsstring" where
  "validateAndNormalizeURL parses url =
     (if trim url = [] then Inl EmptyInput
      else let normalizedUrl = normalizeURL (trim url)
           in if \<not> isValidURL parses normalizedUrl then Inl InvalidFormat
              else Inr normalizedUrl)"

section \<open>The registry\<close>

text \<open>
  The value stored under a short code, \<^verbatim>\<open>{originalUrl, clickCount: 0, createdAt: new Date(), id}\<close>.
  The field \<open>id\<close> is \<open>urlId\<close> here; \<open>createdAt\<close> is the clock's reading in
  milliseconds, which the model takes as an argument \<open>now\<close>. \<open>clickCount\<close>, \<open>id\<close> and
  the counter \<open>nextId\<close> are JavaScript numbers that hold non-negative integers and only
  ever grow by \<open>++\<close>; they are naturals here, \<open>++\<close> being exact below \<open>2^53\<close>.
\<close>

record url_data =
  originalUrl :: jsstring
  clickCount :: nat
  createdAt :: int
  urlId :: nat

text \<open>
  \<^verbatim>\<open>this.urlDatabase = new Map(); this.nextId = 1;\<close>
  A \<open>Map\<close> keeps its entries in insertion order, one per key: it is the list of its
  entries. \<open>mapGet\<close> and \<open>mapSet\<close> are \<open>Map.prototype.get\<close> and \<open>set\<close>: \<open>get\<close> gives
  \<open>undefined\<close> (here \<open>None\<close>) for a key that is absent; \<open>set\<close> on a key that is present
  replaces the value where it stands, on a new key it appends the entry. Keys are
  strings, compared by their contents.
\<close>

type_synonym url_map = "(jsstring \<times> url_data) list"

record app_state =
  urlDatabase :: url_map
  nextId :: nat

definition initialState :: app_state where
  "initialState = \<lparr>urlDatabase = [], nextId = 1\<rparr>"

fun mapGet :: "url_map \<Rightarrow> jsstring \<Rightarrow> url_data option" where
  "mapGet [] k = None"
| "mapGet ((k', v) # m) k = (if k' = k then Some v else mapGet m k)"

fun mapSet :: "jsstring \<Rightarrow> url_data \<Rightarrow> url_map \<Rightarrow> url_map" where
  "mapSet k v [] = [(k, v)]"
| "mapSet k v ((k', v') # m) = (if k' = k then (k, v) # m else (k', v') # mapSet k v m)"

text \<open>
  The part of \<open>shortenURL\<close> after the validation, the spec's \<open>register\<close>:
  \<^verbatim>\<open>
  const id = this.nextId++;
  const shortCode = this.encodeBase62(id);
  this.urlDatabase.set(shortCode, { originalUrl, clickCount: 0, createdAt: new Date(), id });
  \<close>
  It returns the short code and the new state.
\<close>

definition register :: "int \<Rightarrow> jsstring \<Rightarrow> app_state \<Rightarrow> jsstring \<times> app_state" where
  "register now url st =
     (let idv = nextId st;
          st1 = st\<lparr>nextId := nextId st + 1\<rparr>;
          shortCode = encodeBase62 idv
      in (shortCode,
          st1\<lparr>urlDatabase :=
                mapSet shortCode
                  \<lparr>originalUrl = url, clickCount = 0, createdAt = now, urlId = idv\<rparr>
                  (urlDatabase st1)\<rparr>))"

text \<open>
  \<^verbatim>\<open>
  shortenURL() {
      try {
          const inputValue = this.urlInput.value;
          const originalUrl = this.validateAndNormalizeURL(inputValue);
          const id = this.nextId++; ...  this.urlDatabase.set(shortCode, {...});
      } catch (error) { this.showError(error.message); ... }
  }
  \<close>
  The text of the input field is the argument \<open>inputValue\<close>. The error shown and the short
  code displayed are the result. The changes to the page (the loading state, the delayed
  display) have no part in the registry and are left out; the elements of the page the
  function touches are taken to exist.
\<close>

definition shortenURL ::
  "(jsstring \<Rightarrow> bool) \<Rightarrow> int \<Rightarrow> jsstring \<Rightarrow> app_state \<Rightarrow> (error + jsstring) \<times> app_state" where
  "shortenURL parses now inputValue st =
     (case validateAndNormalizeURL parses inputValue of
        Inl e \<Rightarrow> (Inl e, st)
      | Inr url \<Rightarrow> (Inr (fst (register now url st)), snd (register now url st)))"

text \<open>
  \<^verbatim>\<open>
  redirectToOriginal(shortCode, isTest = false) {
      const urlData = this.urlDatabase.get(shortCode);
      if (urlData) {
          urlData.clickCount++;
          ... window.open(urlData.originalUrl, ...) ...
      } else {
          alert('Short URL not found. It may have been created in a different session.');
      }
  }
  \<close>
  The spec's \<open>resolve\<close>. \<open>urlData\<close> is the object held by the map, so the increment changes
  the map's entry where it stands: the model writes the incremented record back under the
  same key. The result is the record whose \<open>originalUrl\<close> is opened, after the increment,
  or \<open>NotFound\<close> for the alert. A stored value is an object, hence truthy.
\<close>

definition redirectToOriginal :: "jsstring \<Rightarrow> app_state \<Rightarrow> (error + url_data) \<times> app_state" where
  "redirectToOriginal shortCode st =
     (case mapGet (urlDatabase st) shortCode of
        Some urlData \<Rightarrow>
          (Inr (urlData\<lparr>clickCount := clickCount urlData + 1\<rparr>),
           st\<lparr>urlDatabase :=
                mapSet shortCode (urlData\<lparr>clickCount := clickCount urlData + 1\<rparr>) (urlDatabase st)\<rparr>)
      | None \<Rightarrow> (Inl NotFound, st))"

text \<open>
  \<^verbatim>\<open>
  updateStats() {
      const totalUrls = this.urlDatabase.size;
      const totalClicks = Array.from(this.urlDatabase.values())
          .reduce((sum, data) => sum + data.clickCount, 0);
      this.totalUrls.textContent = totalUrls;
      this.totalClicks.textContent = totalClicks;
  }
  \<close>
  The two numbers written to the page are the result.
\<close>

record stats =
  totalUrls :: nat
  totalClicks :: nat

definition updateStats :: "app_state \<Rightarrow> stats" where
  "updateStats st =
     \<lparr>totalUrls = length (urlDatabase st),
      totalClicks = foldl (\<lambda>sum data. sum + clickCount data) 0 (map snd (urlDatabase st))\<rparr>"

subsection \<open>Sequences of operations\<close>

text \<open>
  The states the application reaches are those produced from \<open>initialState\<close> by its
  operations: a submission of the form (\<open>shortenURL\<close>), a registration of a destination
  that is already validated (\<open>register\<close>), and a lookup (\<open>redirectToOriginal\<close>).
  \<open>runOps\<close> performs a list of them in order and collects what each one returned.
\<close>

datatype op =
    Submit int jsstring
  | Register int jsstring
  | Resolve jsstring

datatype outcome =
    Alias jsstring
  | Visited url_data
  | Failed error

fun step :: "(jsstring \<Rightarrow> bool) \<Rightarrow> op \<Rightarrow> app_state \<Rightarrow> outcome \<times> app_state" where
  "step parses (Submit now inputValue) st =
     (case shortenURL parses now inputValue st of
        (Inl e, st') \<Rightarrow> (Failed e, st')
      | (Inr shortCode, st') \<Rightarrow> (Alias shortCode, st'))"
| "step parses (Register now url) st =
     (case register now url st of (shortCode, st') \<Rightarrow> (Alias shortCode, st'))"
| "step parses (Resolve shortCode) st =
     (case redirectToOriginal shortCode st of
        (Inl e, st') \<Rightarrow> (Failed e, st')
      | (Inr urlData, st') \<Rightarrow> (Visited urlData, st'))"

fun runOps :: "(jsstring \<Rightarrow> bool) \<Rightarrow> op list \<Rightarrow> app_state \<Rightarrow> outcome list \<times> app_state" where
  "runOps parses [] st = ([], st)"
| "runOps parses (x # xs) st =
     (case step parses x st of
        (r, st') \<Rightarrow> (case runOps parses xs st' of (rs, st'') \<Rightarrow> (r # rs, st'')))"

fun isAlias :: "outcome \<Rightarrow> bool" where
  "isAlias (Alias _) = True"
| "isAlias _ = False"

fun isVisited :: "outcome \<Rightarrow> bool" where
  "isVisited (Visited _) = True"
| "isVisited _ = False"

section \<open>The order on short codes\<close>

text \<open>
  \<open>lexLess\<close> is the lexicographic order on strings by code units (JavaScript's \<open><\<close> on
  strings); the alphabet \<open>0-9A-Za-z\<close> is listed in rising code units, so this is also
  the order by alphabet position. \<open>shortlexLess\<close> compares by length first and
  lexicographically among strings of one length.
\<close>

fun lexLess :: "jsstring \<Rightarrow> jsstring \<Rightarrow> bool" where
  "lexLess [] [] = False"
| "lexLess [] (y # ys) = True"
| "lexLess (x # xs) [] = False"
| "lexLess (x # xs) (y # ys) = (x < y \<or> (x = y \<and> lexLess xs ys))"

definition shortlexLess :: "jsstring \<Rightarrow> jsstring \<Rightarrow> bool" where
  "shortlexLess a b \<longleftrightarrow> length a < length b \<or> (length a = length b \<and> lexLess a b)"

section \<open>The spec's wording of the validator's checks\<close>

text \<open>
  The spec describes the two patterns in words. The predicates of this section follow
  those words, to be compared with the patterns of the source.

  A prefix compared exactly and case-insensitively (on the ASCII letters):
\<close>

definition asciiLower :: "jschar \<Rightarrow> jschar" where
  "asciiLower c = (if 0x41 \<le> c \<and> c \<le> 0x5A then c + 0x20 else c)"

definition startsWith :: "jsstring \<Rightarrow> jsstring \<Rightarrow> bool" where
  "startsWith s p \<longleftrightarrow> take (length p) s = p"

definition startsWithCI :: "jsstring \<Rightarrow> jsstring \<Rightarrow> bool" where
  "startsWithCI s p \<longleftrightarrow> map asciiLower (take (length p) s) = map asciiLower p"

definition hasProtocolPrefix :: "jsstring \<Rightarrow> bool" where
  "hasProtocolPrefix s \<longleftrightarrow> startsWithCI s (js ''http://'') \<or> startsWithCI s (js ''https://'')"

text \<open>
  The characters the spec calls conventionally valid in a URL: alphanumerics and
  \<^verbatim>\<open>-_.~:/?#[]@!$&'()*+,;=%\<close> (the apostrophe is code unit 39).
\<close>

definition urlChar :: "jschar \<Rightarrow> bool" where
  "urlChar c \<longleftrightarrow> isAlnum c \<or> c \<in> set (js ''-_.~:/?#[]@!$&()*+,;=%'') \<or> c = 0x27"

text \<open>
  The characters the pattern's literals and classes admit: alphanumerics and
  \<^verbatim>\<open>-_.~:/?#@&()+=%\<close>. Of the spec's list, \<^verbatim>\<open>[ ] ! $ ' * , ;\<close> are missing.
\<close>

definition patternChar :: "jschar \<Rightarrow> bool" where
  "patternChar c \<longleftrightarrow> isAlnum c \<or> c \<in> set (js ''-_.~:/?#@&()+=%'')"

text \<open>
  The host of an absolute URL: what follows \<open>://\<close>, up to the first \<open>/\<close>, \<open>?\<close> or \<open>#\<close>
  (the authority), without the user information before \<open>@\<close> and the port after \<open>:\<close>.
  \<open>hasDotPair\<close>: the string holds a dot with text on both sides, that is at least one
  dot-separated pair of labels.
\<close>

definition afterScheme :: "jsstring \<Rightarrow> jsstring" where
  "afterScheme u = drop 3 (dropWhile (\<lambda>c. c \<noteq> 0x3A) u)"

definition urlAuthority :: "jsstring \<Rightarrow> jsstring" where
  "urlAuthority u = takeWhile (\<lambda>c. c \<notin> set (js ''/?#'')) (afterScheme u)"

definition urlHost :: "jsstring \<Rightarrow> jsstring" where
  "urlHost u =
     takeWhile (\<lambda>c. c \<noteq> 0x3A) (rev (takeWhile (\<lambda>c. c \<noteq> 0x40) (rev (urlAuthority u))))"

definition hasDotPair :: "jsstring \<Rightarrow> bool" where
  "hasDotPair h = list_ex (\<lambda>i. h ! i = 0x2E \<and> 0 < i \<and> Suc i < length h) [0..<length h]"

text \<open>
  The condition under which, in the spec's words, the validator fails with
  \<open>InvalidFormat\<close>: the string does not parse, or its host has no dot-separated label
  pair, or it holds a character outside the listed ones.
\<close>

definition specInvalidFormat :: "(jsstring \<Rightarrow> bool) \<Rightarrow> jsstring \<Rightarrow> bool" where
  "specInvalidFormat parses u \<longleftrightarrow>
     \<not> parses u \<or> \<not> hasDotPair (urlHost u) \<or> \<not> list_all urlChar u"

section \<open>Auxiliary notions of the proofs\<close>

text \<open>
  \<open>atomChars\<close>: the code units an atom can consume when the flag \<open>i\<close> is off.
\<close>

fun atomChars :: "rx \<Rightarrow> jschar set" where
  "atomChars Bol = {}"
| "atomChars Eol = {}"
| "atomChars (Lit l) = set l"
| "atomChars (Opt l) = set l"
| "atomChars (Rep lo hi cls) = Collect cls"
| "atomChars (Star cls) = Collect cls"
| "atomChars WordB = {}"

text \<open>
  \<open>wellFormed\<close>: the counter is at least 1, and the entries of the map, in the order they
  were inserted, have the sequence numbers \<open>1, 2, ...\<close> up to the counter (excluded), each
  under the code of its number. \<open>visits\<close> is the sum of the click counts of a map.
\<close>

definition wellFormed :: "app_state \<Rightarrow> bool" where
  "wellFormed st \<longleftrightarrow>
     1 \<le> nextId st \<and>
     map fst (urlDatabase st) = map encodeBase62 [1..<nextId st] \<and>
     map (\<lambda>e. urlId (snd e)) (urlDatabase st) = [1..<nextId st]"

definition visits :: "url_map \<Rightarrow> nat" where
  "visits m = sum_list (map (\<lambda>e. clickCount (snd e)) m)"

section \<open>Properties of the code generator\<close>

lemma base62Alphabet_length: "length base62Alphabet = 62"
  by (simp add: base62Alphabet_def js_def)

lemma base62Alphabet_table:
  "list_all (\<lambda>d. base62Alphabet ! d = (if d < 10 then 48 + d else if d < 36 then 55 + d else 61 + d))
     (map nat [0..61])"
  by (simp add: base62Alphabet_def js_def upto.simps)

lemma base62Alphabet_nth:
  assumes "d < 62"
  shows "base62Alphabet ! d = (if d < 10 then 48 + d else if d < 36 then 55 + d else 61 + d)"
proof -
  have "d \<in> nat ` set [0..61]"
    using assms by (intro image_eqI [where x = "int d"]) simp_all
  then have "d \<in> set (map nat [0..61])" unfolding set_map .
  with base62Alphabet_table show ?thesis
    unfolding list_all_iff by blast
qed

lemma base62Alphabet_mono: "d < e \<Longrightarrow> e < 62 \<Longrightarrow> base62Alphabet ! d < base62Alphabet ! e"
  by (simp add: base62Alphabet_nth)

lemma encodeLoop_acc: "encodeLoop num acc = encodeLoop num [] @ acc"
proof (induction num arbitrary: acc rule: less_induct)
  case (less num)
  show ?case
  proof (cases "num > 0")
    case True
    then have lt: "num div 62 < num" by simp
    have "encodeLoop num acc = encodeLoop (num div 62) ((base62Alphabet ! (num mod 62)) # acc)"
      using True by (simp add: encodeLoop.simps [of num])
    also have "\<dots> = encodeLoop (num div 62) [] @ ((base62Alphabet ! (num mod 62)) # acc)"
      by (rule less.IH [OF lt])
    finally have a: "encodeLoop num acc = encodeLoop (num div 62) [] @ ((base62Alphabet ! (num mod 62)) # acc)" .
    have "encodeLoop num [] = encodeLoop (num div 62) [base62Alphabet ! (num mod 62)]"
      using True by (simp add: encodeLoop.simps [of num])
    also have "\<dots> = encodeLoop (num div 62) [] @ [base62Alphabet ! (num mod 62)]"
      by (rule less.IH [OF lt])
    finally show ?thesis using a by simp
  next
    case False
    then show ?thesis by (simp add: encodeLoop.simps [of 0])
  qed
qed

lemma encodeLoop_zero: "encodeLoop 0 [] = []"
  by (simp add: encodeLoop.simps [of 0])

lemma encodeLoop_step:
  "0 < num \<Longrightarrow> encodeLoop num [] = encodeLoop (num div 62) [] @ [base62Alphabet ! (num mod 62)]"
  using encodeLoop_acc [of "num div 62" "[base62Alphabet ! (num mod 62)]"]
  by (simp add: encodeLoop.simps [of num "[]"])

lemma encodeLoop_nonempty: "0 < num \<Longrightarrow> encodeLoop num [] \<noteq> []"
  by (simp add: encodeLoop_step)

lemma lexLess_snoc: "length a = length b \<Longrightarrow> lexLess a b \<Longrightarrow> lexLess (a @ [x]) (b @ [y])"
  by (induction a b rule: list_induct2) auto

lemma lexLess_last: "x < y \<Longrightarrow> lexLess (p @ [x]) (p @ [y])"
  by (induction p) auto

lemma lexLess_irrefl: "\<not> lexLess a a"
  by (induction a) auto

lemma shortlexLess_irrefl: "\<not> shortlexLess a a"
  by (simp add: shortlexLess_def lexLess_irrefl)

lemma shortlexLess_snoc: "shortlexLess a b \<Longrightarrow> shortlexLess (a @ [x]) (b @ [y])"
  by (auto simp: shortlexLess_def lexLess_snoc)

lemma encodeLoop_mono: "n < m \<Longrightarrow> shortlexLess (encodeLoop n []) (encodeLoop m [])"
proof (induction m arbitrary: n rule: less_induct)
  case (less m)
  then have mpos: "0 < m" by simp
  note em = encodeLoop_step [OF mpos]
  show ?case
  proof (cases "n = 0")
    case True
    then show ?thesis
      using encodeLoop_nonempty [OF mpos] by (simp add: encodeLoop_zero shortlexLess_def)
  next
    case False
    then have npos: "0 < n" by simp
    note en = encodeLoop_step [OF npos]
    show ?thesis
    proof (cases "n div 62 < m div 62")
      case True
      have "m div 62 < m" using mpos by simp
      from less.IH [OF this True] show ?thesis
        by (simp add: en em shortlexLess_snoc)
    next
      case False
      have "n div 62 \<le> m div 62" using less.prems by (simp add: div_le_mono)
      with False have eq: "n div 62 = m div 62" by simp
      have "n = 62 * (n div 62) + n mod 62" and "m = 62 * (m div 62) + m mod 62" by simp_all
      with eq less.prems have lt: "n mod 62 < m mod 62" by linarith
      have "base62Alphabet ! (n mod 62) < base62Alphabet ! (m mod 62)"
        by (rule base62Alphabet_mono [OF lt]) simp
      then show ?thesis
        by (simp add: en em eq shortlexLess_def lexLess_last)
    qed
  qed
qed

lemma encodeLoop_length_two: "62 \<le> m \<Longrightarrow> 2 \<le> length (encodeLoop m [])"
proof -
  assume a: "62 \<le> m"
  then have "0 < m" and "0 < m div 62" by simp_all
  then show ?thesis
    using encodeLoop_step [of m] encodeLoop_step [of "m div 62"] by simp
qed

lemma encodeLoop_single: "0 < m \<Longrightarrow> m < 62 \<Longrightarrow> encodeLoop m [] = [base62Alphabet ! m]"
  using encodeLoop_step [of m] by (simp add: encodeLoop_zero)

lemma encodeBase62_mono: "n < m \<Longrightarrow> shortlexLess (encodeBase62 n) (encodeBase62 m)"
proof (cases "n = 0")
  case True
  assume nm: "n < m"
  show ?thesis
  proof (cases "m < 62")
    case True
    with nm \<open>n = 0\<close> show ?thesis
      using base62Alphabet_mono [of 0 m]
      by (simp add: encodeBase62_def encodeLoop_single shortlexLess_def)
  next
    case False
    then have "2 \<le> length (encodeLoop m [])" by (simp add: encodeLoop_length_two)
    with nm \<open>n = 0\<close> show ?thesis
      by (simp add: encodeBase62_def shortlexLess_def)
  qed
next
  case False
  assume "n < m"
  with False show ?thesis
    by (simp add: encodeBase62_def encodeLoop_mono)
qed

lemma encodeBase62_inj: "encodeBase62 n = encodeBase62 m \<Longrightarrow> n = m"
proof (rule ccontr)
  assume eq: "encodeBase62 n = encodeBase62 m" and ne: "n \<noteq> m"
  then consider "n < m" | "m < n" by linarith
  then show False
  proof cases
    case 1
    from encodeBase62_mono [OF this] eq show False by (simp add: shortlexLess_irrefl)
  next
    case 2
    from encodeBase62_mono [OF this] eq show False by (simp add: shortlexLess_irrefl)
  qed
qed

subsection \<open>The loop in double arithmetic\<close>

lemma log2floor_bounds: "0 < n \<Longrightarrow> 2 ^ log2floor n \<le> n \<and> n < 2 ^ Suc (log2floor n)"
proof (induction n rule: log2floor.induct)
  case (1 n)
  show ?case
  proof (cases "n < 2")
    case True
    with "1.prems" show ?thesis by (simp add: log2floor.simps [of n])
  next
    case False
    then have "0 < n div 2" by simp
    from "1.IH" [OF False this] have a: "2 ^ log2floor (n div 2) \<le> n div 2"
      and b: "n div 2 < 2 ^ Suc (log2floor (n div 2))" by simp_all
    from False have l: "log2floor n = Suc (log2floor (n div 2))"
      by (simp add: log2floor.simps [of n])
    from a have "2 * 2 ^ log2floor (n div 2) \<le> n" by linarith
    moreover from b have "n < 2 * 2 ^ Suc (log2floor (n div 2))" by linarith
    ultimately show ?thesis by (simp add: l)
  qed
qed

lemma roundDivEven_lower: "n div d \<le> roundDivEven n d"
  by (simp add: roundDivEven_def Let_def)

lemma roundDivEven_upper: "roundDivEven n d \<le> n div d + 1"
  by (simp add: roundDivEven_def Let_def)

lemma roundDivEven_half: "0 < d \<Longrightarrow> 2 * d * roundDivEven n d \<le> 2 * n + d"
proof -
  assume d: "0 < d"
  have n: "n = d * (n div d) + n mod d" by simp
  show ?thesis
  proof (cases "2 * (n mod d) < d")
    case True
    then have "roundDivEven n d = n div d" by (simp add: roundDivEven_def Let_def)
    then have "2 * d * roundDivEven n d = 2 * (d * (n div d))" by simp
    also have "\<dots> \<le> 2 * n" by simp
    also have "\<dots> \<le> 2 * n + d" by simp
    finally show ?thesis .
  next
    case False
    have "roundDivEven n d \<le> n div d + 1" by (rule roundDivEven_upper)
    then have "2 * d * roundDivEven n d \<le> 2 * d * (n div d + 1)" by (rule mult_le_mono2)
    also have "\<dots> = 2 * (d * (n div d)) + 2 * d" by (simp add: algebra_simps)
    also have "\<dots> \<le> 2 * (d * (n div d)) + 2 * (n mod d) + d" using False by simp
    also have "\<dots> = 2 * (d * (n div d) + n mod d) + d" by (simp only: distrib_left)
    also have "\<dots> = 2 * n + d" by (simp only: mult_div_mod_eq)
    finally show ?thesis .
  qed
qed

lemma pow_ge_32: "5 \<le> s \<Longrightarrow> (32::nat) \<le> 2 ^ s"
proof -
  assume "5 \<le> s"
  then have "(2::nat) ^ 5 \<le> 2 ^ s" by (intro power_increasing) simp_all
  then show ?thesis by simp
qed

lemma scaled_round_exact:
  assumes S: "32 \<le> S"
  shows "roundDivEven (a * S) 62 div S = a div 62"
proof -
  define q r where "q = a div 62" and "r = a mod 62"
  define R where "R = roundDivEven (a * S) 62"
  have a: "a = 62 * q + r" by (simp add: q_def r_def)
  have r: "r \<le> 61" by (simp add: r_def Suc_leI less_Suc_eq_le)
  have "62 * (q * S) \<le> a * S" by (simp add: a algebra_simps)
  then have "q * S \<le> (a * S) div 62"
    by (simp add: less_eq_div_iff_mult_less_eq mult.commute)
  also have "\<dots> \<le> R" unfolding R_def by (rule roundDivEven_lower)
  finally have lo: "q * S \<le> R" .
  have "124 * R \<le> 2 * (a * S) + 62"
    using roundDivEven_half [of 62 "a * S"] by (simp add: R_def)
  also have "\<dots> = 124 * (q * S) + 2 * (r * S) + 62"
    by (simp add: a algebra_simps)
  also have "\<dots> \<le> 124 * (q * S) + 2 * (61 * S) + 62"
    using r by (simp add: mult_le_mono1)
  also have "\<dots> < 124 * (q * S) + 124 * S" using S by simp
  finally have "124 * R < 124 * ((q + 1) * S)" by (simp add: algebra_simps)
  then have hi: "R < (q + 1) * S" by simp
  from S have "0 < S" by simp
  with lo hi have "R div S = q"
    by (metis Suc_eq_plus1 div_nat_eqI mult.commute)
  then show ?thesis by (simp add: R_def q_def)
qed

lemma floorDivDouble_exact:
  assumes "a < 62 * 2 ^ 48"
  shows "floorDivDouble a 62 = a div 62"
proof (cases "a = 0")
  case True
  then show ?thesis by (simp add: floorDivDouble_def)
next
  case False
  show ?thesis
  proof (cases "62 \<le> a")
    case True
    define e where "e = log2floor (a div 62)"
    from True have "0 < a div 62" by (simp add: div_greater_zero_iff)
    from log2floor_bounds [OF this] have "2 ^ e \<le> a div 62" by (simp add: e_def)
    also from assms have "a div 62 < 2 ^ 48" by (simp add: div_less_iff_less_mult mult.commute)
    finally have "(2::nat) ^ e < 2 ^ 48" .
    then have e: "e < 48" by (rule power_less_imp_less_exp [rotated]) simp
    then have "5 \<le> 52 - e" by simp
    then have "(32::nat) \<le> 2 ^ (52 - e)" by (rule pow_ge_32)
    from scaled_round_exact [OF this] e True False show ?thesis
      by (simp add: floorDivDouble_def Let_def e_def [symmetric])
  next
    case False
    have "(32::nat) \<le> 2 ^ (52 + negExponent a 62)" by (rule pow_ge_32) simp
    from scaled_round_exact [OF this] False \<open>a \<noteq> 0\<close> show ?thesis
      by (simp add: floorDivDouble_def Let_def)
  qed
qed

lemma floorDivDouble_less:
  assumes "0 < a"
  shows "floorDivDouble a 62 < a"
proof (cases "62 \<le> a")
  case False
  then have "a < 62 * 2 ^ 48" by simp
  from floorDivDouble_exact [OF this] assms show ?thesis by simp
next
  case True
  define q where "q = a div 62"
  define e where "e = log2floor q"
  from True have q: "0 < q" by (simp add: q_def div_greater_zero_iff)
  have qa: "2 * q < a"
  proof -
    have "62 * q \<le> a" by (simp add: q_def)
    with q show ?thesis by linarith
  qed
  show ?thesis
  proof (cases "e \<le> 52")
    case le: True
    define S :: nat where "S = 2 ^ (52 - e)"
    have S: "0 < S" by (simp add: S_def)
    have "roundDivEven (a * S) 62 \<le> (a * S) div 62 + 1" by (rule roundDivEven_upper)
    also have "\<dots> \<le> (a * S) div 62 + S" using S by simp
    finally have "roundDivEven (a * S) 62 div S \<le> ((a * S) div 62 + S) div S"
      by (rule div_le_mono)
    also have "\<dots> = (a * S) div 62 div S + 1"
      using S div_add_self2 [of S "(a * S) div 62"] by simp
    also have "(a * S) div 62 div S = q"
      using S by (simp add: div_mult2_eq [symmetric] q_def)
    finally have "roundDivEven (a * S) 62 div S \<le> q + 1" by simp
    also have "\<dots> \<le> 2 * q" using q by simp
    also note qa
    finally show ?thesis
      using True le by (simp add: floorDivDouble_def Let_def q_def [symmetric] e_def [symmetric] S_def)
  next
    case gt: False
    define u :: nat where "u = 2 ^ (e - 52)"
    have u: "0 < u" by (simp add: u_def)
    have "u \<le> 2 ^ e" unfolding u_def by (intro power_increasing) simp_all
    also from log2floor_bounds [OF q] have "\<dots> \<le> q" by (simp add: e_def)
    finally have uq: "u \<le> q" .
    have "roundDivEven a (62 * u) * u \<le> (a div (62 * u) + 1) * u"
      by (intro mult_le_mono1 roundDivEven_upper)
    also have "a div (62 * u) = q div u"
      by (simp only: div_mult2_eq q_def)
    also have "(q div u + 1) * u = (q div u) * u + u"
      by (simp add: algebra_simps)
    also have "\<dots> \<le> q + u" by simp
    also have "\<dots> \<le> 2 * q" using uq by simp
    also note qa
    finally show ?thesis
      using True gt by (simp add: floorDivDouble_def Let_def q_def [symmetric] e_def [symmetric] u_def)
  qed
qed

termination encodeLoopDouble
  by (relation "measure fst") (auto simp: floorDivDouble_less)

declare encodeLoopDouble.simps [simp del]

lemma encodeLoopDouble_exact:
  "num < 62 * 2 ^ 48 \<Longrightarrow> encodeLoopDouble num acc = encodeLoop num acc"
proof (induction num arbitrary: acc rule: less_induct)
  case (less num)
  show ?case
  proof (cases "num > 0")
    case True
    then have lt: "num div 62 < num" by simp
    with less.prems have b: "num div 62 < 62 * 2 ^ 48" by simp
    have "encodeLoopDouble num acc =
        encodeLoopDouble (num div 62) ((base62Alphabet ! (num mod 62)) # acc)"
      using True by (simp add: encodeLoopDouble.simps [of num] floorDivDouble_exact [OF less.prems])
    also have "\<dots> = encodeLoop (num div 62) ((base62Alphabet ! (num mod 62)) # acc)"
      by (rule less.IH [OF lt b])
    also have "\<dots> = encodeLoop num acc"
      using True by (simp add: encodeLoop.simps [of num])
    finally show ?thesis .
  next
    case False
    then show ?thesis
      by (simp add: encodeLoopDouble.simps [of 0] encodeLoop.simps [of 0])
  qed
qed

lemma encodeBase62Double_exact: "num < 2 ^ 53 \<Longrightarrow> encodeBase62Double num = encodeBase62 num"
proof -
  assume "num < 2 ^ 53"
  then have "num < 62 * 2 ^ 48" by simp
  then show ?thesis
    by (simp add: encodeBase62Double_def encodeBase62_def encodeLoopDouble_exact)
qed

lemmas double_eval = encodeBase62Double_def encodeLoopDouble.simps floorDivDouble_def Let_def
  roundDivEven_def log2floor.simps negExponent.simps base62Alphabet_def js_def

subsection \<open>The claims about the code generator\<close>

text \<open>
  Claim C2, as amended. The alphabet puts the lower-case letters last, so position 61
  is \<open>z\<close> and \<open>Z\<close> is position 35: \<open>encode(61)\<close> is \<open>"z"\<close>, not \<open>"Z"\<close>. The other
  vectors hold as the spec gives them: \<open>encode(1) = "1"\<close>, \<open>encode(62) = "10"\<close>,
  \<open>encode(10) = "A"\<close>, \<open>encode(36) = "a"\<close>, and \<open>encode(0)\<close> is the first symbol \<open>"0"\<close>.
\<close>

theorem encodeBase62_vectors:
  "encodeBase62 1 = js ''1'' \<and> encodeBase62 62 = js ''10'' \<and> encodeBase62 61 = js ''z'' \<and>
   encodeBase62 35 = js ''Z'' \<and> encodeBase62 10 = js ''A'' \<and> encodeBase62 36 = js ''a'' \<and>
   encodeBase62 0 = js ''0''"
  by (simp add: encodeBase62_def encodeLoop.simps base62Alphabet_def js_def)

text \<open>
  Claim C2 as the spec states it fails at its third vector: \<open>encode(61)\<close> is not \<open>"Z"\<close>.
\<close>

theorem encodeBase62_61_counterexample:
  "\<not> (encodeBase62 1 = js ''1'' \<and> encodeBase62 62 = js ''10'' \<and> encodeBase62 61 = js ''Z'' \<and>
      encodeBase62 10 = js ''A'' \<and> encodeBase62 36 = js ''a'' \<and> encodeBase62 0 = js ''0'')"
  by (simp add: encodeBase62_def encodeLoop.simps base62Alphabet_def js_def)

text \<open>
  Claim C6, as amended. On the integers below \<open>2^53\<close>, where every integer is a double
  and the loop's arithmetic is exact, \<open>encodeBase62\<close> as the engine runs it is injective,
  and strictly increasing from the order of the numbers to the order by length, then
  lexicographic, of the codes: a longer code only appears after every shorter one.
\<close>

theorem encodeBase62_injective_increasing:
  assumes "n < 2 ^ 53" and "m < 2 ^ 53"
  shows "(encodeBase62Double n = encodeBase62Double m \<longleftrightarrow> n = m) \<and>
         (n < m \<longrightarrow> shortlexLess (encodeBase62Double n) (encodeBase62Double m))"
  unfolding encodeBase62Double_exact [OF assms(1)] encodeBase62Double_exact [OF assms(2)]
  using encodeBase62_inj [of n m] encodeBase62_mono [of n m] by blast

theorem encodeBase62_injective_increasing_witness:
  "(61::nat) < 2 ^ 53 \<and> (62::nat) < 2 ^ 53 \<and> (61::nat) < 62 \<and>
   encodeBase62Double 61 = js ''z'' \<and> encodeBase62Double 62 = js ''10'' \<and>
   encodeBase62Double 61 \<noteq> encodeBase62Double 62 \<and>
   shortlexLess (js ''z'') (js ''10'')"
proof -
  have a: "(61::nat) < 2 ^ 53" and b: "(62::nat) < 2 ^ 53" by simp_all
  have e1: "encodeBase62Double 61 = js ''z''" and e2: "encodeBase62Double 62 = js ''10''"
    by (simp_all add: double_eval)
  from encodeBase62_injective_increasing [OF a b] a b e1 e2 show ?thesis by simp
qed

text \<open>
  Claim C6 as the spec states it, for all positive integers, fails beyond \<open>2^53\<close>. Both
  \<open>36028797018964120\<close> and \<open>36028797018964128\<close> are doubles (multiples of 8 between
  \<open>2^55\<close> and \<open>2^56\<close>). For the first, \<open>num / 62\<close> is \<open>581109629338130.97\<close>, which rounds up
  to the double \<open>581109629338131\<close>, so the loop goes on from a quotient that is one too
  large and returns \<open>2f0lAtpqdy\<close>; for the second, larger one it returns \<open>2f0lAtpqd6\<close>,
  which comes before \<open>2f0lAtpqdy\<close> in the order of the codes.
\<close>

theorem encodeBase62_double_rounding_counterexample:
  "(36028797018964120::nat) < 36028797018964128 \<and>
   floorDivDouble 36028797018964120 62 = 581109629338131 \<and>
   encodeBase62Double 36028797018964120 = js ''2f0lAtpqdy'' \<and>
   encodeBase62Double 36028797018964128 = js ''2f0lAtpqd6'' \<and>
   \<not> shortlexLess (encodeBase62Double 36028797018964120) (encodeBase62Double 36028797018964128)"
proof -
  have d: "floorDivDouble 36028797018964120 62 = 581109629338131"
    by (simp add: floorDivDouble_def Let_def roundDivEven_def log2floor.simps)
  have e1: "encodeBase62Double 36028797018964120 = js ''2f0lAtpqdy''"
    by (simp add: double_eval)
  have e2: "encodeBase62Double 36028797018964128 = js ''2f0lAtpqd6''"
    by (simp add: double_eval)
  have s: "\<not> shortlexLess (js ''2f0lAtpqdy'') (js ''2f0lAtpqd6'')"
    by (simp add: shortlexLess_def js_def)
  from d e1 e2 s show ?thesis by simp
qed

section \<open>Properties of the validator\<close>

lemma rxSearch_Bol_Some: "rxSearch ic (Bol # rs) (Some p) s = False"
  by (induction s arbitrary: p) auto

lemma rxTest_Bol: "rxTest ic (Bol # rs) s = rxMatch ic rs None s"
  by (cases s) (simp_all add: rxTest_def rxSearch_Bol_Some)

lemma canonicalize_eq_iff:
  "canonicalize True c = canonicalize True d \<longleftrightarrow> asciiLower c = asciiLower d"
  by (auto simp: canonicalize_def asciiLower_def)

lemma map_canonicalize_eq_iff:
  "map (canonicalize True) a = map (canonicalize True) b \<longleftrightarrow> map asciiLower a = map asciiLower b"
proof (induction a arbitrary: b)
  case Nil
  then show ?case by simp
next
  case (Cons x a)
  then show ?case by (cases b) (simp_all add: canonicalize_eq_iff)
qed

lemma litMatch_True_iff: "litMatch True l s \<longleftrightarrow> startsWithCI s l"
proof
  assume "litMatch True l s"
  then show "startsWithCI s l"
    by (simp add: litMatch_def startsWithCI_def map_canonicalize_eq_iff)
next
  assume a: "startsWithCI s l"
  then have "length (map asciiLower (take (length l) s)) = length (map asciiLower l)"
    unfolding startsWithCI_def by simp
  then have "length l \<le> length s" by simp
  with a show "litMatch True l s"
    by (simp add: litMatch_def startsWithCI_def map_canonicalize_eq_iff)
qed

lemma canonicalize_False: "canonicalize False = (\<lambda>c. c)"
  by (simp add: fun_eq_iff canonicalize_def)

lemma litMatch_False_iff: "litMatch False l s \<longleftrightarrow> startsWith s l"
proof
  assume "litMatch False l s"
  then show "startsWith s l"
    by (simp add: litMatch_def startsWith_def canonicalize_False)
next
  assume a: "startsWith s l"
  then have "length (take (length l) s) = length l"
    unfolding startsWith_def by simp
  then have "length l \<le> length s" by simp
  with a show "litMatch False l s"
    by (simp add: litMatch_def startsWith_def canonicalize_False)
qed

lemma litMatch_append:
  "litMatch ic (a @ b) s \<longleftrightarrow> litMatch ic a s \<and> litMatch ic b (drop (length a) s)"
proof (cases "length a + length b \<le> length s")
  case True
  have "take (length a + length b) s = take (length a) s @ take (length b) (drop (length a) s)"
    by (simp add: take_add)
  with True show ?thesis
    by (auto simp: litMatch_def)
next
  case False
  then show ?thesis by (auto simp: litMatch_def)
qed

lemma rxMatch_scheme:
  "rxMatch ic (Lit a # Opt b # Lit c # rs) prev s \<Longrightarrow>
     litMatch ic (a @ c) s \<or> litMatch ic (a @ b @ c) s"
  by (auto simp: litMatch_append split: if_splits)

lemma protocolRegex_iff: "rxTest True protocolRegex s \<longleftrightarrow> hasProtocolPrefix s"
proof -
  have "rxTest True protocolRegex s \<longleftrightarrow>
          litMatch True (js ''http'' @ js ''://'') s \<or> litMatch True (js ''http'' @ js ''s'' @ js ''://'') s"
    unfolding protocolRegex_def rxTest_Bol
    by (auto simp: litMatch_append split: if_splits)
  also have "\<dots> \<longleftrightarrow> hasProtocolPrefix s"
    by (simp add: litMatch_True_iff hasProtocolPrefix_def js_def)
  finally show ?thesis .
qed

lemma urlValidationRegex_scheme:
  assumes "rxTest False urlValidationRegex s"
  shows "startsWith s (js ''http://'') \<or> startsWith s (js ''https://'')"
proof -
  from assms have "litMatch False (js ''http'' @ js ''://'') s \<or> litMatch False (js ''http'' @ js ''s'' @ js ''://'') s"
    unfolding urlValidationRegex_def rxTest_Bol by (rule rxMatch_scheme)
  then show ?thesis by (simp add: litMatch_False_iff js_def)
qed


lemma startsWith_set: "startsWith s l \<Longrightarrow> set s = set l \<union> set (drop (length l) s)"
proof -
  assume "startsWith s l"
  then have "s = l @ drop (length l) s"
    unfolding startsWith_def by (metis append_take_drop_id)
  then have "set s = set (l @ drop (length l) s)" by simp
  then show ?thesis by simp
qed

lemma rxMatch_chars:
  "\<not> ic \<Longrightarrow> rxMatch ic rs prev s \<Longrightarrow> rs \<noteq> [] \<Longrightarrow> last rs = Eol \<Longrightarrow>
     set s \<subseteq> (\<Union>a\<in>set rs. atomChars a)"
proof (induction ic rs prev s rule: rxMatch.induct)
  case (4 ic l rs prev s)
  from "4.prems" have lm: "litMatch ic l s"
    and r: "rxMatch ic rs (lastOf prev (take (length l) s)) (drop (length l) s)"
    and ne: "rs \<noteq> []" "last rs = Eol"
    by (auto split: if_splits)
  from lm \<open>\<not> ic\<close> have m: "startsWith s l" by (simp add: litMatch_False_iff)
  from "4.IH" [OF lm \<open>\<not> ic\<close> r ne] startsWith_set [OF m] show ?case by auto
next
  case (5 ic l rs prev s)
  from "5.prems" have ne: "rs \<noteq> []" "last rs = Eol" by (auto split: if_splits)
  show ?case
  proof (cases "litMatch ic l s \<and> rxMatch ic rs (lastOf prev (take (length l) s)) (drop (length l) s)")
    case True
    then have lm: "litMatch ic l s"
      and r: "rxMatch ic rs (lastOf prev (take (length l) s)) (drop (length l) s)" by simp_all
    from lm \<open>\<not> ic\<close> have m: "startsWith s l" by (simp add: litMatch_False_iff)
    from "5.IH"(1) [OF lm \<open>\<not> ic\<close> r ne] startsWith_set [OF m] show ?thesis by auto
  next
    case False
    with "5.prems" have b: "rxMatch ic rs prev s" by (auto split: if_splits)
    from False have "\<not> (if litMatch ic l s
        then rxMatch ic rs (lastOf prev (take (length l) s)) (drop (length l) s) else False)"
      by (auto split: if_splits)
    from "5.IH"(2) [OF this \<open>\<not> ic\<close> b ne] show ?thesis by auto
  qed
qed (auto split: if_splits)

lemma patternChar_urlChar: "patternChar c \<Longrightarrow> urlChar c"
  by (auto simp: patternChar_def urlChar_def js_def)

lemma urlValidationRegex_pattern_atoms:
  "(\<Union>a\<in>set urlValidationRegex. atomChars a) \<subseteq> Collect patternChar"
  by (auto simp: urlValidationRegex_def patternChar_def hostClass_def tldClass_def pathClass_def
      js_def isAlnum_def)

lemma urlValidationRegex_patternChars:
  assumes "rxTest False urlValidationRegex u"
  shows "list_all patternChar u"
proof -
  from assms have "rxMatch False (tl urlValidationRegex) None u"
    by (simp add: urlValidationRegex_def rxTest_Bol)
  then have "set u \<subseteq> (\<Union>a\<in>set (tl urlValidationRegex). atomChars a)"
    by (rule rxMatch_chars [rotated]) (simp_all add: urlValidationRegex_def)
  also have "\<dots> \<subseteq> (\<Union>a\<in>set urlValidationRegex. atomChars a)"
    by (simp add: urlValidationRegex_def)
  finally show ?thesis
    using urlValidationRegex_pattern_atoms by (auto simp: list_all_iff)
qed

lemma normalizeURL_eq:
  "normalizeURL u = (if hasProtocolPrefix u then u else js ''https://'' @ u)"
  by (simp add: normalizeURL_def protocolRegex_iff)

lemmas rx_eval = rxTest_def urlValidationRegex_def js_def litMatch_def canonicalize_def
  wordAt_def lastOf_def isWordChar_def isAlnum_def hostClass_def tldClass_def pathClass_def

lemmas norm_eval = normalizeURL_eq hasProtocolPrefix_def startsWithCI_def js_def asciiLower_def

lemma validate_example_com:
  assumes "parses (js ''https://example.com'')"
  shows "validateAndNormalizeURL parses (js ''example.com'') = Inr (js ''https://example.com'')"
proof -
  have t: "trim (js ''example.com'') = js ''example.com''"
    by (simp add: trim_def js_def isWhiteSpace_def)
  have n: "normalizeURL (js ''example.com'') = js ''https://example.com''"
    by (simp add: norm_eval)
  have r: "rxTest False urlValidationRegex (js ''https://example.com'')"
    by (simp add: rx_eval)
  have e: "js ''example.com'' \<noteq> []" by (simp add: js_def)
  show ?thesis
    using assms r e by (simp add: validateAndNormalizeURL_def Let_def t n isValidURL_def)
qed

lemma validate_empty: "validateAndNormalizeURL parses (js '''') = Inl EmptyInput"
  by (simp add: validateAndNormalizeURL_def trim_def js_def)

lemma validate_not_a_url:
  "validateAndNormalizeURL parses (js ''not a url'') = Inl InvalidFormat"
proof -
  have t: "trim (js ''not a url'') = js ''not a url''"
    by (simp add: trim_def js_def isWhiteSpace_def)
  have n: "normalizeURL (js ''not a url'') = js ''https://not a url''"
    by (simp add: norm_eval)
  have r: "\<not> rxTest False urlValidationRegex (js ''https://not a url'')"
    by (simp add: rx_eval)
  have e: "js ''not a url'' \<noteq> []" by (simp add: js_def)
  show ?thesis
    using r e by (simp add: validateAndNormalizeURL_def Let_def t n isValidURL_def)
qed

text \<open>
  Claim C7: the validator fails with \<open>EmptyInput\<close> exactly when the trimmed input is
  empty; a trimmed input that lacks the prefix \<open>http://\<close> or \<open>https://\<close>, compared
  case-insensitively, gets \<open>https://\<close> prepended, and the checks run on the result;
  \<open>"example.com"\<close> gives \<open>"https://example.com"\<close> (where \<open>new URL\<close> accepts that string,
  as it does), \<open>""\<close> fails with \<open>EmptyInput\<close> and \<open>"not a url"\<close> with \<open>InvalidFormat\<close>.
\<close>

theorem validateAndNormalizeURL_empty_and_prefix:
  "(validateAndNormalizeURL parses raw = Inl EmptyInput \<longleftrightarrow> trim raw = []) \<and>
   normalizeURL (trim raw) =
     (if hasProtocolPrefix (trim raw) then trim raw else js ''https://'' @ trim raw) \<and>
   (trim raw \<noteq> [] \<longrightarrow>
      validateAndNormalizeURL parses raw =
        (if isValidURL parses (normalizeURL (trim raw)) then Inr (normalizeURL (trim raw))
         else Inl InvalidFormat)) \<and>
   (parses (js ''https://example.com'') \<longrightarrow>
      validateAndNormalizeURL parses (js ''example.com'') = Inr (js ''https://example.com'')) \<and>
   validateAndNormalizeURL parses (js '''') = Inl EmptyInput \<and>
   validateAndNormalizeURL parses (js ''not a url'') = Inl InvalidFormat"
proof (intro conjI impI)
  show "validateAndNormalizeURL parses raw = Inl EmptyInput \<longleftrightarrow> trim raw = []"
    by (simp add: validateAndNormalizeURL_def Let_def)
  show "normalizeURL (trim raw) =
     (if hasProtocolPrefix (trim raw) then trim raw else js ''https://'' @ trim raw)"
    by (rule normalizeURL_eq)
  show "validateAndNormalizeURL parses raw =
        (if isValidURL parses (normalizeURL (trim raw)) then Inr (normalizeURL (trim raw))
         else Inl InvalidFormat)" if "trim raw \<noteq> []"
    using that by (simp add: validateAndNormalizeURL_def Let_def)
  show "validateAndNormalizeURL parses (js ''example.com'') = Inr (js ''https://example.com'')"
    if "parses (js ''https://example.com'')"
    using that by (rule validate_example_com)
  show "validateAndNormalizeURL parses (js '''') = Inl EmptyInput"
    by (rule validate_empty)
  show "validateAndNormalizeURL parses (js ''not a url'') = Inl InvalidFormat"
    by (rule validate_not_a_url)
qed

theorem validateAndNormalizeURL_empty_and_prefix_witness:
  "trim (js '' example.com  '') = js ''example.com'' \<and>
   \<not> hasProtocolPrefix (js ''example.com'') \<and>
   validateAndNormalizeURL (\<lambda>u. True) (js '' example.com  '') = Inr (js ''https://example.com'') \<and>
   validateAndNormalizeURL (\<lambda>u. True) (js '''') = Inl EmptyInput \<and>
   validateAndNormalizeURL (\<lambda>u. True) (js ''not a url'') = Inl InvalidFormat"
proof -
  have t: "trim (js '' example.com  '') = js ''example.com''"
    by (simp add: trim_def js_def isWhiteSpace_def)
  have p: "\<not> hasProtocolPrefix (js ''example.com'')"
    by (simp add: norm_eval)
  have r: "rxTest False urlValidationRegex (js ''https://example.com'')"
    by (simp add: rx_eval)
  have e: "js ''example.com'' \<noteq> []" by (simp add: js_def)
  have c: "js ''https://'' @ js ''example.com'' = js ''https://example.com''"
    by (simp add: js_def)
  show ?thesis
    using validateAndNormalizeURL_empty_and_prefix [of "\<lambda>u. True" "js '' example.com  ''"] t p r e
    by (simp add: isValidURL_def c)
qed

text \<open>
  Claim C10: when the trimmed input begins with \<open>http://\<close> or \<open>https://\<close> in some
  spelling that is not all lower case, such as \<open>HTTP://\<close>, nothing is prepended (the
  prefix test ignores case) and the validator fails with \<open>InvalidFormat\<close>, whatever
  follows the scheme and whatever \<open>new URL\<close> says: the pattern wants the scheme in
  lower case.
\<close>

theorem validateAndNormalizeURL_upper_case_scheme:
  assumes "hasProtocolPrefix (trim raw)"
    and "\<not> startsWith (trim raw) (js ''http://'')"
    and "\<not> startsWith (trim raw) (js ''https://'')"
  shows "normalizeURL (trim raw) = trim raw \<and>
         validateAndNormalizeURL parses raw = Inl InvalidFormat"
proof -
  from assms(1) have n: "normalizeURL (trim raw) = trim raw"
    by (simp add: normalizeURL_eq)
  from assms(1) have ne: "trim raw \<noteq> []"
    by (auto simp: hasProtocolPrefix_def startsWithCI_def js_def)
  from assms(2,3) have "\<not> rxTest False urlValidationRegex (trim raw)"
    using urlValidationRegex_scheme by blast
  then have "\<not> isValidURL parses (trim raw)"
    by (simp add: isValidURL_def)
  with n ne show ?thesis
    by (simp add: validateAndNormalizeURL_def Let_def)
qed

theorem validateAndNormalizeURL_upper_case_scheme_witness:
  "hasProtocolPrefix (trim (js ''HTTP://example.com'')) \<and>
   \<not> startsWith (trim (js ''HTTP://example.com'')) (js ''http://'') \<and>
   \<not> startsWith (trim (js ''HTTP://example.com'')) (js ''https://'') \<and>
   normalizeURL (trim (js ''HTTP://example.com'')) = js ''HTTP://example.com'' \<and>
   validateAndNormalizeURL (\<lambda>u. True) (js ''HTTP://example.com'') = Inl InvalidFormat \<and>
   validateAndNormalizeURL (\<lambda>u. True) (js ''http://example.com'') = Inr (js ''http://example.com'')"
proof -
  have t: "trim (js ''HTTP://example.com'') = js ''HTTP://example.com''"
    by (simp add: trim_def js_def isWhiteSpace_def)
  have h: "hasProtocolPrefix (js ''HTTP://example.com'')"
    by (simp add: norm_eval)
  have s1: "\<not> startsWith (js ''HTTP://example.com'') (js ''http://'')"
    and s2: "\<not> startsWith (js ''HTTP://example.com'') (js ''https://'')"
    by (simp_all add: startsWith_def js_def)
  have t': "trim (js ''http://example.com'') = js ''http://example.com''"
    by (simp add: trim_def js_def isWhiteSpace_def)
  have n': "normalizeURL (js ''http://example.com'') = js ''http://example.com''"
    by (simp add: norm_eval)
  have r': "rxTest False urlValidationRegex (js ''http://example.com'')"
    by (simp add: rx_eval)
  have e': "js ''http://example.com'' \<noteq> []" by (simp add: js_def)
  have ok: "validateAndNormalizeURL (\<lambda>u. True) (js ''http://example.com'') = Inr (js ''http://example.com'')"
    using r' e' by (simp add: validateAndNormalizeURL_def Let_def t' n' isValidURL_def)
  show ?thesis
    using validateAndNormalizeURL_upper_case_scheme [of "js ''HTTP://example.com''" "\<lambda>u. True"] t h s1 s2 ok by simp
qed

text \<open>
  Claim C3, as amended. For an input whose trimmed form is not empty, the validator fails
  with \<open>InvalidFormat\<close> whenever the normalized string does not parse (\<open>new URL\<close> throws)
  or holds a character that is not alphanumeric and not one of \<^verbatim>\<open>-_.~:/?#@&()+=%\<close>, the
  characters the pattern admits; these are fewer than the spec lists, so it fails in
  particular on every character outside the spec's list. When it does not fail with
  \<open>InvalidFormat\<close> it returns the normalized string unchanged. Nothing is said about the
  host.
\<close>

theorem validateAndNormalizeURL_invalid_format:
  assumes "trim raw \<noteq> []"
  shows "(\<not> parses (normalizeURL (trim raw)) \<or>
          \<not> list_all patternChar (normalizeURL (trim raw)) \<longrightarrow>
            validateAndNormalizeURL parses raw = Inl InvalidFormat) \<and>
         (\<not> list_all urlChar (normalizeURL (trim raw)) \<longrightarrow>
            validateAndNormalizeURL parses raw = Inl InvalidFormat) \<and>
         (validateAndNormalizeURL parses raw \<noteq> Inl InvalidFormat \<longrightarrow>
            validateAndNormalizeURL parses raw = Inr (normalizeURL (trim raw)))"
proof -
  let ?n = "normalizeURL (trim raw)"
  have v: "validateAndNormalizeURL parses raw =
      (if parses ?n \<and> rxTest False urlValidationRegex ?n then Inr ?n else Inl InvalidFormat)"
    using assms by (simp add: validateAndNormalizeURL_def Let_def isValidURL_def)
  have p: "list_all patternChar ?n" if "rxTest False urlValidationRegex ?n"
    using that by (rule urlValidationRegex_patternChars)
  have u: "list_all urlChar ?n" if "list_all patternChar ?n"
    using that by (auto simp: list_all_iff patternChar_urlChar)
  show ?thesis
    unfolding v using p u by auto
qed

theorem validateAndNormalizeURL_invalid_format_witness:
  "trim (js ''example.com/a!b'') \<noteq> [] \<and>
   normalizeURL (trim (js ''example.com/a!b'')) = js ''https://example.com/a!b'' \<and>
   \<not> list_all patternChar (js ''https://example.com/a!b'') \<and>
   validateAndNormalizeURL (\<lambda>u. True) (js ''example.com/a!b'') = Inl InvalidFormat"
proof -
  have t: "trim (js ''example.com/a!b'') = js ''example.com/a!b''"
    by (simp add: trim_def js_def isWhiteSpace_def)
  have n: "normalizeURL (js ''example.com/a!b'') = js ''https://example.com/a!b''"
    by (simp add: norm_eval)
  have c: "\<not> list_all patternChar (js ''https://example.com/a!b'')"
    by (simp add: patternChar_def isAlnum_def js_def)
  have e: "js ''example.com/a!b'' \<noteq> []" by (simp add: js_def)
  show ?thesis
    using validateAndNormalizeURL_invalid_format [of "js ''example.com/a!b''" "\<lambda>u. True"] t n c e
    by simp
qed

text \<open>
  Claim C3 as the spec states it fails in both directions. \<open>"https://example.com/a!b"\<close>
  parses as an absolute URL, its host \<open>example.com\<close> has a dot-separated label pair and
  all its characters are in the spec's list (\<open>!\<close> is), so none of the spec's three reasons
  holds; the validator fails with \<open>InvalidFormat\<close> all the same, because the pattern's
  classes leave \<open>!\<close> out. \<open>"https://localhost#a.b"\<close> parses and has the host \<open>localhost\<close>,
  which has no dot, so the spec's second reason holds; the validator accepts it all the
  same, because the pattern's first class holds \<open>#\<close> and so runs on into the fragment,
  where it finds the dot it wants.
\<close>

theorem validateAndNormalizeURL_pattern_counterexample:
  "validateAndNormalizeURL (\<lambda>u. True) (js ''https://example.com/a!b'') = Inl InvalidFormat \<and>
   urlHost (js ''https://example.com/a!b'') = js ''example.com'' \<and>
   \<not> specInvalidFormat (\<lambda>u. True) (js ''https://example.com/a!b'') \<and>
   validateAndNormalizeURL (\<lambda>u. True) (js ''https://localhost#a.b'') =
     Inr (js ''https://localhost#a.b'') \<and>
   urlHost (js ''https://localhost#a.b'') = js ''localhost'' \<and>
   \<not> hasDotPair (js ''localhost'') \<and>
   specInvalidFormat (\<lambda>u. True) (js ''https://localhost#a.b'')"
proof -
  have t: "trim (js ''https://example.com/a!b'') = js ''https://example.com/a!b''"
    by (simp add: trim_def js_def isWhiteSpace_def)
  have n: "normalizeURL (js ''https://example.com/a!b'') = js ''https://example.com/a!b''"
    by (simp add: norm_eval)
  have r: "\<not> rxTest False urlValidationRegex (js ''https://example.com/a!b'')"
    by (simp add: rx_eval)
  have e: "js ''https://example.com/a!b'' \<noteq> []" by (simp add: js_def)
  have h: "urlHost (js ''https://example.com/a!b'') = js ''example.com''"
    by (simp add: urlHost_def urlAuthority_def afterScheme_def js_def)
  have d: "hasDotPair (js ''example.com'')"
    by (simp add: hasDotPair_def js_def upt_rec [of _ "numeral _"] upt_rec [of _ "Suc _"])
  have c: "list_all urlChar (js ''https://example.com/a!b'')"
    by (simp add: urlChar_def isAlnum_def js_def)
  have v: "validateAndNormalizeURL (\<lambda>u. True) (js ''https://example.com/a!b'') = Inl InvalidFormat"
    using r e by (simp add: validateAndNormalizeURL_def Let_def t n isValidURL_def)
  have s: "\<not> specInvalidFormat (\<lambda>u. True) (js ''https://example.com/a!b'')"
    using h d c by (simp add: specInvalidFormat_def)
  have t': "trim (js ''https://localhost#a.b'') = js ''https://localhost#a.b''"
    by (simp add: trim_def js_def isWhiteSpace_def)
  have n': "normalizeURL (js ''https://localhost#a.b'') = js ''https://localhost#a.b''"
    by (simp add: norm_eval)
  have r': "rxTest False urlValidationRegex (js ''https://localhost#a.b'')"
    by (simp add: rx_eval)
  have e': "js ''https://localhost#a.b'' \<noteq> []" by (simp add: js_def)
  have h': "urlHost (js ''https://localhost#a.b'') = js ''localhost''"
    by (simp add: urlHost_def urlAuthority_def afterScheme_def js_def)
  have d': "\<not> hasDotPair (js ''localhost'')"
    by (simp add: hasDotPair_def js_def upt_rec [of _ "numeral _"] upt_rec [of _ "Suc _"])
  have v': "validateAndNormalizeURL (\<lambda>u. True) (js ''https://localhost#a.b'') =
      Inr (js ''https://localhost#a.b'')"
    using r' e' by (simp add: validateAndNormalizeURL_def Let_def t' n' isValidURL_def)
  have s': "specInvalidFormat (\<lambda>u. True) (js ''https://localhost#a.b'')"
    using h' d' by (simp add: specInvalidFormat_def)
  from v h s v' h' d' s' show ?thesis by blast
qed

section \<open>Properties of the registry\<close>

lemma mapGet_mapSet: "mapGet (mapSet k v m) k' = (if k' = k then Some v else mapGet m k')"
  by (induction m) auto

lemma mapGet_None_iff: "mapGet m k = None \<longleftrightarrow> k \<notin> set (map fst m)"
  by (induction m) (auto split: if_splits)

lemma mapSet_fresh: "mapGet m k = None \<Longrightarrow> mapSet k v m = m @ [(k, v)]"
  by (induction m) (auto split: if_splits)

lemma mapSet_keys: "mapGet m k = Some d \<Longrightarrow> map fst (mapSet k v m) = map fst m"
  by (induction m) (auto split: if_splits)

lemma mapSet_ids:
  "mapGet m k = Some d \<Longrightarrow> urlId v = urlId d \<Longrightarrow>
     map (\<lambda>e. urlId (snd e)) (mapSet k v m) = map (\<lambda>e. urlId (snd e)) m"
  by (induction m) (auto split: if_splits)

lemma mapSet_visits:
  "mapGet m k = Some d \<Longrightarrow> visits (mapSet k v m) + clickCount d = visits m + clickCount v"
  by (induction m) (auto simp: visits_def split: if_splits)

lemma foldl_clicks:
  "foldl (\<lambda>sum data. sum + clickCount data) a xs = a + sum_list (map clickCount xs)"
  by (induction xs arbitrary: a) auto

lemma totalClicks_visits: "totalClicks (updateStats st) = visits (urlDatabase st)"
  by (simp add: updateStats_def foldl_clicks visits_def comp_def)

lemma totalUrls_length: "totalUrls (updateStats st) = length (urlDatabase st)"
  by (simp add: updateStats_def)

lemma wellFormed_initial: "wellFormed initialState"
  by (simp add: wellFormed_def initialState_def)

lemma wellFormed_fresh:
  assumes "wellFormed st"
  shows "mapGet (urlDatabase st) (encodeBase62 (nextId st)) = None"
proof -
  have "encodeBase62 (nextId st) \<notin> set (map encodeBase62 [1..<nextId st])"
  proof
    assume "encodeBase62 (nextId st) \<in> set (map encodeBase62 [1..<nextId st])"
    then obtain i where "i \<in> set [1..<nextId st]" and "encodeBase62 (nextId st) = encodeBase62 i"
      by auto
    then show False using encodeBase62_inj [of "nextId st" i] by simp
  qed
  moreover from assms have "map fst (urlDatabase st) = map encodeBase62 [1..<nextId st]"
    by (simp add: wellFormed_def)
  ultimately show ?thesis
    unfolding mapGet_None_iff by simp
qed

lemma wellFormed_distinct:
  assumes "wellFormed st"
  shows "distinct (map fst (urlDatabase st))"
proof -
  have "inj_on encodeBase62 (set [1..<nextId st])"
    by (rule inj_onI) (rule encodeBase62_inj)
  then have "distinct (map encodeBase62 [1..<nextId st])"
    by (simp add: distinct_map)
  with assms show ?thesis by (simp add: wellFormed_def)
qed

lemma wellFormed_length: "wellFormed st \<Longrightarrow> Suc (length (urlDatabase st)) = nextId st"
proof -
  assume a: "wellFormed st"
  then have "map fst (urlDatabase st) = map encodeBase62 [1..<nextId st]"
    by (simp add: wellFormed_def)
  then have "length (map fst (urlDatabase st)) = length (map encodeBase62 [1..<nextId st])"
    by (rule arg_cong)
  then have "length (urlDatabase st) = nextId st - 1" by simp
  moreover from a have "1 \<le> nextId st" by (simp add: wellFormed_def)
  ultimately show ?thesis by simp
qed

lemma register_fresh:
  assumes "wellFormed st"
  shows "register now url st =
    (encodeBase62 (nextId st),
     \<lparr>urlDatabase = urlDatabase st @
        [(encodeBase62 (nextId st),
          \<lparr>originalUrl = url, clickCount = 0, createdAt = now, urlId = nextId st\<rparr>)],
      nextId = nextId st + 1\<rparr>)"
  using wellFormed_fresh [OF assms] by (simp add: register_def Let_def mapSet_fresh)

lemma register_wellFormed:
  assumes "wellFormed st"
  shows "wellFormed (snd (register now url st))"
  using assms by (simp add: register_fresh [OF assms] wellFormed_def)

lemma register_visits:
  "wellFormed st \<Longrightarrow> visits (urlDatabase (snd (register now url st))) = visits (urlDatabase st)"
  by (simp add: register_fresh visits_def)

lemma redirect_found:
  assumes "mapGet (urlDatabase st) code = Some d"
  shows "redirectToOriginal code st =
    (Inr (d\<lparr>clickCount := clickCount d + 1\<rparr>),
     st\<lparr>urlDatabase := mapSet code (d\<lparr>clickCount := clickCount d + 1\<rparr>) (urlDatabase st)\<rparr>)"
  using assms by (simp add: redirectToOriginal_def)

lemma redirect_missing:
  "mapGet (urlDatabase st) code = None \<Longrightarrow> redirectToOriginal code st = (Inl NotFound, st)"
  by (simp add: redirectToOriginal_def)

lemma redirect_wellFormed:
  assumes "wellFormed st"
  shows "wellFormed (snd (redirectToOriginal code st))"
proof (cases "mapGet (urlDatabase st) code")
  case None
  with assms show ?thesis by (simp add: redirect_missing)
next
  case (Some d)
  with assms show ?thesis
    by (simp add: redirect_found wellFormed_def mapSet_keys mapSet_ids [where d = d])
qed

lemma redirect_nextId: "nextId (snd (redirectToOriginal code st)) = nextId st"
  by (cases "mapGet (urlDatabase st) code") (simp_all add: redirect_found redirect_missing)

lemma redirect_visits:
  "visits (urlDatabase (snd (redirectToOriginal code st))) =
     visits (urlDatabase st) + (if mapGet (urlDatabase st) code = None then 0 else 1)"
proof (cases "mapGet (urlDatabase st) code")
  case None
  then show ?thesis by (simp add: redirect_missing)
next
  case (Some d)
  from mapSet_visits [OF Some, of "d\<lparr>clickCount := clickCount d + 1\<rparr>"] Some
  show ?thesis by (simp add: redirect_found)
qed

lemma shortenURL_cases:
  "shortenURL parses now inputValue st =
     (case validateAndNormalizeURL parses inputValue of
        Inl e \<Rightarrow> (Inl e, st)
      | Inr url \<Rightarrow> (Inr (fst (register now url st)), snd (register now url st)))"
  by (simp add: shortenURL_def)

lemma step_effect:
  assumes "wellFormed st" and "step parses x st = (r, st')"
  shows "wellFormed st' \<and> nextId st \<le> nextId st' \<and>
         filter isAlias [r] = map (\<lambda>i. Alias (encodeBase62 i)) [nextId st..<nextId st'] \<and>
         visits (urlDatabase st') = visits (urlDatabase st) + length (filter isVisited [r])"
proof (cases x)
  case (Submit now inputValue)
  show ?thesis
  proof (cases "validateAndNormalizeURL parses inputValue")
    case (Inl e)
    with Submit assms show ?thesis by (auto simp: shortenURL_def)
  next
    case (Inr url)
    with Submit assms(2) have r: "r = Alias (fst (register now url st))"
      and s: "st' = snd (register now url st)"
      by (auto simp: shortenURL_def)
    from register_wellFormed [OF assms(1), of now url] register_visits [OF assms(1), of now url]
    show ?thesis unfolding r s by (simp add: register_fresh [OF assms(1)])
  qed
next
  case (Register now url)
  with assms(2) have r: "r = Alias (fst (register now url st))"
    and s: "st' = snd (register now url st)"
    by (auto split: prod.splits)
  from register_wellFormed [OF assms(1), of now url] register_visits [OF assms(1), of now url]
  show ?thesis unfolding r s by (simp add: register_fresh [OF assms(1)])
next
  case (Resolve code)
  show ?thesis
  proof (cases "mapGet (urlDatabase st) code")
    case None
    with Resolve assms show ?thesis by (auto simp: redirect_missing)
  next
    case (Some d)
    with Resolve assms(2) have r: "isVisited r" and s: "st' = snd (redirectToOriginal code st)"
      by (auto simp: redirect_found)
    from r have "\<not> isAlias r" by (cases r) simp_all
    with r redirect_wellFormed [OF assms(1), of code] redirect_nextId [of code st]
      redirect_visits [of code st] Some
    show ?thesis unfolding s by simp
  qed
qed

lemma runOps_effect:
  "wellFormed st \<Longrightarrow> runOps parses ops st = (outs, st') \<Longrightarrow>
     wellFormed st' \<and> nextId st \<le> nextId st' \<and>
     filter isAlias outs = map (\<lambda>i. Alias (encodeBase62 i)) [nextId st..<nextId st'] \<and>
     visits (urlDatabase st') = visits (urlDatabase st) + length (filter isVisited outs)"
proof (induction ops arbitrary: st outs st')
  case Nil
  then show ?case by simp
next
  case (Cons x xs)
  obtain r st1 where s1: "step parses x st = (r, st1)" by (cases "step parses x st")
  obtain rs st2 where s2: "runOps parses xs st1 = (rs, st2)" by (cases "runOps parses xs st1")
  from Cons.prems(2) s1 s2 have o: "outs = r # rs" and e: "st' = st2" by simp_all
  note a = step_effect [OF Cons.prems(1) s1]
  from a have w1: "wellFormed st1" by simp
  note b = Cons.IH [OF w1 s2]
  from a b have le: "nextId st \<le> nextId st1" "nextId st1 \<le> nextId st2" by simp_all
  then have u: "[nextId st..<nextId st2] = [nextId st..<nextId st1] @ [nextId st1..<nextId st2]"
    by (metis le_Suc_ex upt_add_eq_append)
  have "filter isAlias (r # rs) = filter isAlias [r] @ filter isAlias rs" by simp
  also have "\<dots> = map (\<lambda>i. Alias (encodeBase62 i)) [nextId st..<nextId st2]"
    using a b unfolding u by simp
  finally have f: "filter isAlias (r # rs) = map (\<lambda>i. Alias (encodeBase62 i)) [nextId st..<nextId st2]" .
  have "length (filter isVisited (r # rs)) = length (filter isVisited [r]) + length (filter isVisited rs)"
    by simp
  with a b have v: "visits (urlDatabase st2) = visits (urlDatabase st) + length (filter isVisited (r # rs))"
    by simp
  from b le f v show ?case unfolding o e by simp
qed

lemma runOps_initial:
  assumes "runOps parses ops initialState = (outs, st)"
  shows "wellFormed st"
    and "filter isAlias outs = map (\<lambda>i. Alias (encodeBase62 i)) [1..<nextId st]"
    and "visits (urlDatabase st) = length (filter isVisited outs)"
  using runOps_effect [OF wellFormed_initial assms]
  by (simp_all add: initialState_def visits_def)

lemmas reg_eval = register_def redirectToOriginal_def Let_def initialState_def encodeBase62_def
  encodeLoop.simps base62Alphabet_def js_def shortenURL_def validateAndNormalizeURL_def
  trim_def updateStats_def

text \<open>
  Claim C1, as amended. Right after \<open>register\<close> the record stored under the new alias
  has \<open>clickCount = 0\<close> (as a lookup in the map shows it, without resolving); the first
  three calls of \<open>redirectToOriginal\<close> on the alias then return the record with
  \<open>clickCount\<close> 1, 2 and 3. It holds from every state.
\<close>

theorem register_then_resolve_counts:
  "(let (alias, s1) = register now url st;
        (r1, s2) = redirectToOriginal alias s1;
        (r2, s3) = redirectToOriginal alias s2;
        (r3, s4) = redirectToOriginal alias s3
    in mapGet (urlDatabase s1) alias =
         Some \<lparr>originalUrl = url, clickCount = 0, createdAt = now, urlId = nextId st\<rparr> \<and>
       r1 = Inr \<lparr>originalUrl = url, clickCount = 1, createdAt = now, urlId = nextId st\<rparr> \<and>
       r2 = Inr \<lparr>originalUrl = url, clickCount = 2, createdAt = now, urlId = nextId st\<rparr> \<and>
       r3 = Inr \<lparr>originalUrl = url, clickCount = 3, createdAt = now, urlId = nextId st\<rparr>)"
  by (simp add: register_def redirectToOriginal_def Let_def mapGet_mapSet)

theorem register_then_resolve_counts_witness:
  "mapGet (urlDatabase (snd (register 7 (js ''https://a.com'') initialState))) (js ''1'') =
     Some \<lparr>originalUrl = js ''https://a.com'', clickCount = 0, createdAt = 7, urlId = 1\<rparr> \<and>
   fst (register 7 (js ''https://a.com'') initialState) = js ''1''"
  using register_then_resolve_counts [of 7 "js ''https://a.com''" initialState]
  by (simp add: reg_eval)

text \<open>
  Claim C1 as the spec states it fails at its first part: the resolve that comes right
  after the registration of \<open>"https://a.com"\<close> in the initial state already counts as a
  visit, and returns the record with \<open>clickCount = 1\<close>, not 0.
\<close>

theorem resolve_after_register_counterexample:
  "fst (register 0 (js ''https://a.com'') initialState) = js ''1'' \<and>
   fst (redirectToOriginal (js ''1'') (snd (register 0 (js ''https://a.com'') initialState))) =
     Inr \<lparr>originalUrl = js ''https://a.com'', clickCount = 1, createdAt = 0, urlId = 1\<rparr>"
  by (simp add: reg_eval)

text \<open>
  Claim C4: in every state, when the alias is present \<open>redirectToOriginal\<close> returns the
  record with its \<open>clickCount\<close> raised by exactly one and stores it under the alias; the
  records under all other keys, the keys and their order, the counter \<open>nextId\<close> and the
  number of entries stay as they were, and the total of the clicks grows by one. When the
  alias is absent it gives \<open>NotFound\<close> and the state, hence \<open>totalUrls\<close>, is unchanged.
\<close>

theorem redirectToOriginal_effect:
  "(mapGet (urlDatabase st) code = Some d \<longrightarrow>
      fst (redirectToOriginal code st) = Inr (d\<lparr>clickCount := clickCount d + 1\<rparr>) \<and>
      mapGet (urlDatabase (snd (redirectToOriginal code st))) code =
        Some (d\<lparr>clickCount := clickCount d + 1\<rparr>) \<and>
      (\<forall>k. k \<noteq> code \<longrightarrow>
         mapGet (urlDatabase (snd (redirectToOriginal code st))) k = mapGet (urlDatabase st) k) \<and>
      map fst (urlDatabase (snd (redirectToOriginal code st))) = map fst (urlDatabase st) \<and>
      nextId (snd (redirectToOriginal code st)) = nextId st \<and>
      totalUrls (updateStats (snd (redirectToOriginal code st))) = totalUrls (updateStats st) \<and>
      totalClicks (updateStats (snd (redirectToOriginal code st))) =
        totalClicks (updateStats st) + 1) \<and>
   (mapGet (urlDatabase st) code = None \<longrightarrow>
      redirectToOriginal code st = (Inl NotFound, st) \<and>
      totalUrls (updateStats (snd (redirectToOriginal code st))) = totalUrls (updateStats st))"
proof (intro conjI impI)
  assume s: "mapGet (urlDatabase st) code = Some d"
  note f = redirect_found [OF s]
  show "fst (redirectToOriginal code st) = Inr (d\<lparr>clickCount := clickCount d + 1\<rparr>)"
    by (simp add: f)
  show "mapGet (urlDatabase (snd (redirectToOriginal code st))) code =
        Some (d\<lparr>clickCount := clickCount d + 1\<rparr>)"
    by (simp add: f mapGet_mapSet)
  show "\<forall>k. k \<noteq> code \<longrightarrow>
         mapGet (urlDatabase (snd (redirectToOriginal code st))) k = mapGet (urlDatabase st) k"
    by (simp add: f mapGet_mapSet)
  show k: "map fst (urlDatabase (snd (redirectToOriginal code st))) = map fst (urlDatabase st)"
    by (simp add: f mapSet_keys [OF s])
  show "nextId (snd (redirectToOriginal code st)) = nextId st"
    by (rule redirect_nextId)
  from k have "length (map fst (urlDatabase (snd (redirectToOriginal code st)))) =
      length (map fst (urlDatabase st))" by (rule arg_cong)
  then show "totalUrls (updateStats (snd (redirectToOriginal code st))) = totalUrls (updateStats st)"
    by (simp add: totalUrls_length)
  show "totalClicks (updateStats (snd (redirectToOriginal code st))) =
        totalClicks (updateStats st) + 1"
    using s by (simp add: totalClicks_visits redirect_visits)
next
  assume n: "mapGet (urlDatabase st) code = None"
  then show "redirectToOriginal code st = (Inl NotFound, st)"
    by (rule redirect_missing)
  then show "totalUrls (updateStats (snd (redirectToOriginal code st))) = totalUrls (updateStats st)"
    by simp
qed

theorem redirectToOriginal_effect_witness:
  "mapGet [(js ''1'', \<lparr>originalUrl = js ''https://a.com'', clickCount = 4, createdAt = 0, urlId = 1\<rparr>)]
     (js ''1'') =
     Some \<lparr>originalUrl = js ''https://a.com'', clickCount = 4, createdAt = 0, urlId = 1\<rparr> \<and>
   redirectToOriginal (js ''1'')
     \<lparr>urlDatabase =
        [(js ''1'', \<lparr>originalUrl = js ''https://a.com'', clickCount = 4, createdAt = 0, urlId = 1\<rparr>)],
      nextId = 2\<rparr> =
     (Inr \<lparr>originalUrl = js ''https://a.com'', clickCount = 5, createdAt = 0, urlId = 1\<rparr>,
      \<lparr>urlDatabase =
        [(js ''1'', \<lparr>originalUrl = js ''https://a.com'', clickCount = 5, createdAt = 0, urlId = 1\<rparr>)],
       nextId = 2\<rparr>) \<and>
   mapGet [(js ''1'', \<lparr>originalUrl = js ''https://a.com'', clickCount = 4, createdAt = 0, urlId = 1\<rparr>)]
     (js ''zz'') = None \<and>
   fst (redirectToOriginal (js ''zz'')
     \<lparr>urlDatabase =
        [(js ''1'', \<lparr>originalUrl = js ''https://a.com'', clickCount = 4, createdAt = 0, urlId = 1\<rparr>)],
      nextId = 2\<rparr>) = Inl NotFound"
  using
    redirectToOriginal_effect [of "\<lparr>urlDatabase =
        [(js ''1'', \<lparr>originalUrl = js ''https://a.com'', clickCount = 4, createdAt = 0, urlId = 1\<rparr>)],
      nextId = 2\<rparr>" "js ''1''"
      "\<lparr>originalUrl = js ''https://a.com'', clickCount = 4, createdAt = 0, urlId = 1\<rparr>"]
    redirectToOriginal_effect [of "\<lparr>urlDatabase =
        [(js ''1'', \<lparr>originalUrl = js ''https://a.com'', clickCount = 4, createdAt = 0, urlId = 1\<rparr>)],
      nextId = 2\<rparr>" "js ''zz''"]
  by (simp add: redirectToOriginal_def js_def)

text \<open>
  Claim C5: in every state reached from the initial state by submissions, registrations
  and lookups, the keys of the map are distinct; the sequence numbers of the entries are
  \<open>1, 2, ...\<close> in the order of insertion, so each registration got a number above all
  earlier ones and none was used twice; the aliases returned so far are the codes of
  \<open>1, 2, ...\<close> in that order; a further \<open>register\<close> returns an alias (it has no failing
  branch), the code of \<open>nextId\<close>, which is not in the map before the insertion, appends
  its record and moves the counter on by one. Three registrations from the initial state
  return \<open>"1"\<close>, \<open>"2"\<close>, \<open>"3"\<close>.
\<close>

theorem registry_invariant:
  assumes "runOps parses ops initialState = (outs, st)"
  shows "distinct (map fst (urlDatabase st)) \<and>
         map (\<lambda>e. urlId (snd e)) (urlDatabase st) = [1..<nextId st] \<and>
         map fst (urlDatabase st) = map encodeBase62 [1..<nextId st] \<and>
         filter isAlias outs = map (\<lambda>i. Alias (encodeBase62 i)) [1..<nextId st] \<and>
         isAlias (fst (step parses (Register now url) st)) \<and>
         fst (register now url st) = encodeBase62 (nextId st) \<and>
         mapGet (urlDatabase st) (fst (register now url st)) = None \<and>
         urlDatabase (snd (register now url st)) =
           urlDatabase st @
             [(encodeBase62 (nextId st),
               \<lparr>originalUrl = url, clickCount = 0, createdAt = now, urlId = nextId st\<rparr>)] \<and>
         nextId (snd (register now url st)) = nextId st + 1 \<and>
         fst (runOps parses
                [Register t1 (js ''https://a.com''), Register t2 (js ''https://b.com''),
                 Register t3 (js ''https://c.com'')] initialState) =
           [Alias (js ''1''), Alias (js ''2''), Alias (js ''3'')]"
proof -
  note r = runOps_initial [OF assms]
  note w = r(1)
  have three: "fst (runOps parses
                [Register t1 (js ''https://a.com''), Register t2 (js ''https://b.com''),
                 Register t3 (js ''https://c.com'')] initialState) =
           [Alias (js ''1''), Alias (js ''2''), Alias (js ''3'')]"
    by (simp add: reg_eval)
  have al: "isAlias (fst (step parses (Register now url) st))"
    by (simp split: prod.splits)
  from w have ids: "map (\<lambda>e. urlId (snd e)) (urlDatabase st) = [1..<nextId st]"
    and keys: "map fst (urlDatabase st) = map encodeBase62 [1..<nextId st]"
    by (simp_all add: wellFormed_def)
  from wellFormed_fresh [OF w] have fresh: "mapGet (urlDatabase st) (fst (register now url st)) = None"
    by (simp add: register_fresh [OF w])
  show ?thesis
    using wellFormed_distinct [OF w] ids keys r(2) al fresh three
    by (simp add: register_fresh [OF w])
qed

theorem registry_invariant_witness:
  "runOps (\<lambda>u. True)
     [Register 10 (js ''https://a.com''), Resolve (js ''1''), Submit 20 (js ''''),
      Register 30 (js ''https://b.com'')] initialState =
     ([Alias (js ''1''),
       Visited \<lparr>originalUrl = js ''https://a.com'', clickCount = 1, createdAt = 10, urlId = 1\<rparr>,
       Failed EmptyInput, Alias (js ''2'')],
      \<lparr>urlDatabase =
         [(js ''1'', \<lparr>originalUrl = js ''https://a.com'', clickCount = 1, createdAt = 10, urlId = 1\<rparr>),
          (js ''2'', \<lparr>originalUrl = js ''https://b.com'', clickCount = 0, createdAt = 30, urlId = 2\<rparr>)],
       nextId = 3\<rparr>) \<and>
   fst (register 40 (js ''https://c.com'')
     \<lparr>urlDatabase =
         [(js ''1'', \<lparr>originalUrl = js ''https://a.com'', clickCount = 1, createdAt = 10, urlId = 1\<rparr>),
          (js ''2'', \<lparr>originalUrl = js ''https://b.com'', clickCount = 0, createdAt = 30, urlId = 2\<rparr>)],
       nextId = 3\<rparr>) = js ''3''"
proof -
  have run: "runOps (\<lambda>u. True)
     [Register 10 (js ''https://a.com''), Resolve (js ''1''), Submit 20 (js ''''),
      Register 30 (js ''https://b.com'')] initialState =
     ([Alias (js ''1''),
       Visited \<lparr>originalUrl = js ''https://a.com'', clickCount = 1, createdAt = 10, urlId = 1\<rparr>,
       Failed EmptyInput, Alias (js ''2'')],
      \<lparr>urlDatabase =
         [(js ''1'', \<lparr>originalUrl = js ''https://a.com'', clickCount = 1, createdAt = 10, urlId = 1\<rparr>),
          (js ''2'', \<lparr>originalUrl = js ''https://b.com'', clickCount = 0, createdAt = 30, urlId = 2\<rparr>)],
       nextId = 3\<rparr>)"
    by (simp add: reg_eval)
  from registry_invariant [OF run, of 40 "js ''https://c.com''"] run show ?thesis
    by (simp add: reg_eval)
qed

text \<open>
  Claim C8: in every reachable state \<open>updateStats\<close> reports as \<open>totalUrls\<close> the number of
  entries of the map (the number of its keys, and of the registrations that succeeded)
  and as \<open>totalClicks\<close> the sum of \<open>clickCount\<close> over the records (the number of lookups
  that succeeded); so after three registrations and five successful lookups it reports
  3 and 5.
\<close>

theorem updateStats_totals:
  assumes "runOps parses ops initialState = (outs, st)"
  shows "totalUrls (updateStats st) = length (urlDatabase st) \<and>
         totalUrls (updateStats st) = card (set (map fst (urlDatabase st))) \<and>
         totalClicks (updateStats st) = sum_list (map (\<lambda>e. clickCount (snd e)) (urlDatabase st)) \<and>
         totalUrls (updateStats st) = length (filter isAlias outs) \<and>
         totalClicks (updateStats st) = length (filter isVisited outs) \<and>
         (length (filter isAlias outs) = 3 \<and> length (filter isVisited outs) = 5 \<longrightarrow>
            totalUrls (updateStats st) = 3 \<and> totalClicks (updateStats st) = 5)"
proof -
  note r = runOps_initial [OF assms]
  from distinct_card [OF wellFormed_distinct [OF r(1)]]
  have c: "card (set (map fst (urlDatabase st))) = length (urlDatabase st)" by simp
  from r(2) have "length (filter isAlias outs) = length (map (\<lambda>i. Alias (encodeBase62 i)) [1..<nextId st])"
    by (rule arg_cong)
  with wellFormed_length [OF r(1)] have a: "length (filter isAlias outs) = length (urlDatabase st)"
    by simp
  from r(3) have v: "totalClicks (updateStats st) = length (filter isVisited outs)"
    by (simp add: totalClicks_visits)
  have s: "totalClicks (updateStats st) = sum_list (map (\<lambda>e. clickCount (snd e)) (urlDatabase st))"
    by (simp add: totalClicks_visits visits_def)
  from c a v s show ?thesis by (simp add: totalUrls_length)
qed

theorem updateStats_totals_witness:
  "updateStats (snd (runOps (\<lambda>u. True)
     [Register 1 (js ''https://a.com''), Resolve (js ''1''), Register 2 (js ''https://b.com''),
      Resolve (js ''zz''), Register 3 (js ''https://c.com''), Resolve (js ''3''),
      Resolve (js ''1''), Resolve (js ''3''), Submit 4 (js []), Resolve (js ''3'')]
     initialState)) = \<lparr>totalUrls = 3, totalClicks = 5\<rparr>"
proof -
  let ?run = "runOps (\<lambda>u. True)
     [Register 1 (js ''https://a.com''), Resolve (js ''1''), Register 2 (js ''https://b.com''),
      Resolve (js ''zz''), Register 3 (js ''https://c.com''), Resolve (js ''3''),
      Resolve (js ''1''), Resolve (js ''3''), Submit 4 (js []), Resolve (js ''3'')]
     initialState"
  have run: "?run = (fst ?run, snd ?run)" by simp
  have outs: "length (filter isAlias (fst ?run)) = 3 \<and> length (filter isVisited (fst ?run)) = 5"
    by (simp add: reg_eval)
  from updateStats_totals [OF run] outs
  have "totalUrls (updateStats (snd ?run)) = 3 \<and> totalClicks (updateStats (snd ?run)) = 5"
    by blast
  then show ?thesis by (cases "updateStats (snd ?run)") simp
qed

text \<open>
  Claim C9: when the validation of a submission fails, with \<open>EmptyInput\<close> or
  \<open>InvalidFormat\<close>, \<open>shortenURL\<close> returns the error and the state as it was: no sequence
  number is used and the map is untouched. A later submission that validates gets the
  sequence number \<open>nextId\<close> the state had before the failed one.
\<close>

theorem shortenURL_failure_keeps_state:
  assumes "validateAndNormalizeURL parses inputValue = Inl e"
  shows "shortenURL parses now inputValue st = (Inl e, st) \<and>
         (e = EmptyInput \<or> e = InvalidFormat) \<and>
         (validateAndNormalizeURL parses input2 = Inr url \<longrightarrow>
            shortenURL parses now2 input2 (snd (shortenURL parses now inputValue st)) =
              (Inr (encodeBase62 (nextId st)), snd (register now2 url st)) \<and>
            nextId (snd (register now2 url st)) = nextId st + 1 \<and>
            mapGet (urlDatabase (snd (register now2 url st))) (encodeBase62 (nextId st)) =
              Some \<lparr>originalUrl = url, clickCount = 0, createdAt = now2, urlId = nextId st\<rparr>)"
proof -
  from assms have a: "shortenURL parses now inputValue st = (Inl e, st)"
    by (simp add: shortenURL_def)
  from assms have b: "e = EmptyInput \<or> e = InvalidFormat"
    by (auto simp: validateAndNormalizeURL_def Let_def split: if_splits)
  show ?thesis
    unfolding a using b
    by (simp add: shortenURL_def register_def Let_def mapGet_mapSet)
qed

theorem shortenURL_failure_keeps_state_witness:
  "validateAndNormalizeURL (\<lambda>u. True) (js ''not a url'') = Inl InvalidFormat \<and>
   shortenURL (\<lambda>u. True) 5 (js ''not a url'') initialState = (Inl InvalidFormat, initialState) \<and>
   validateAndNormalizeURL (\<lambda>u. True) (js ''example.com'') = Inr (js ''https://example.com'') \<and>
   fst (shortenURL (\<lambda>u. True) 6 (js ''example.com'')
          (snd (shortenURL (\<lambda>u. True) 5 (js ''not a url'') initialState))) = Inr (js ''1'')"
proof -
  have v1: "validateAndNormalizeURL (\<lambda>u. True) (js ''not a url'') = Inl InvalidFormat"
    and v2: "validateAndNormalizeURL (\<lambda>u. True) (js ''example.com'') = Inr (js ''https://example.com'')"
    using validate_not_a_url [of "\<lambda>u. True"] validate_example_com [of "\<lambda>u. True"] by simp_all
  note c = shortenURL_failure_keeps_state [OF v1, of 5 initialState "js ''example.com''" "js ''https://example.com''" 6]
  from c have a: "shortenURL (\<lambda>u. True) 5 (js ''not a url'') initialState = (Inl InvalidFormat, initialState)"
    by blast
  from c v2 have b: "shortenURL (\<lambda>u. True) 6 (js ''example.com'')
          (snd (shortenURL (\<lambda>u. True) 5 (js ''not a url'') initialState)) =
        (Inr (encodeBase62 (nextId initialState)), snd (register 6 (js ''https://example.com'') initialState))"
    by blast
  have e: "encodeBase62 (nextId initialState) = js ''1''"
    by (simp add: initialState_def encodeBase62_def encodeLoop.simps base62Alphabet_def js_def)
  have f: "fst (shortenURL (\<lambda>u. True) 6 (js ''example.com'')
          (snd (shortenURL (\<lambda>u. True) 5 (js ''not a url'') initialState))) = Inr (js ''1'')"
    by (simp only: b e fst_conv)
  from v1 v2 a f show ?thesis by blast
qed

end
